theory Spec2Isabelle
  imports Main "HOL-Library.Word" "HOL-Library.Multiset"
begin

unbundle bit_operations_syntax

section \<open>Packed occupancy windows (class compactField, tile.hpp)\<close>

text \<open>
  A \<open>compactField\<close> is one \<open>uint64_t\<close> holding six rows of ten bits each; row 0 is
  the lowest ten bits.
\<close>

type_synonym compactField = "64 word"

definition fieldMask :: "64 word" where
  "fieldMask = push_bit 10 1 - 1"

definition fullMask :: "64 word" where
  "fullMask = push_bit 60 1 - 1"

definition collide :: "compactField \<Rightarrow> compactField \<Rightarrow> bool" where
  "collide field f = (field AND f \<noteq> 0)"

text \<open>
  \<open>tileMove\<close> takes an \<open>int8_t\<close>; the value is passed here as the integer it denotes.
  A C++ shift by 64 or more is undefined; every caller below shifts by less.
\<close>

definition tileMove :: "compactField \<Rightarrow> int \<Rightarrow> compactField" where
  "tileMove field x = (if x \<ge> 0 then push_bit (nat x) field else drop_bit (nat (- x)) field)"

definition fieldDown :: "compactField \<Rightarrow> 16 word \<Rightarrow> compactField" where
  "fieldDown field row = (push_bit 10 field AND fullMask) OR (ucast row AND fieldMask)"

definition fieldUp :: "compactField \<Rightarrow> 64 word \<Rightarrow> compactField" where
  "fieldUp field row = drop_bit 10 (field AND fullMask) OR push_bit 50 (row AND fieldMask)"

section \<open>Coordinates (union tileCoord, tile.hpp)\<close>

text \<open>
  A \<open>tileCoord\<close> is one byte: the signed 4-bit field \<open>x\<close> in the low nibble and the
  signed 4-bit field \<open>y\<close> in the high nibble (the layout GCC and Clang give the
  union on little-endian targets).
\<close>

definition nibble :: "int \<Rightarrow> int" where
  "nibble v = (if v mod 16 \<ge> 8 then v mod 16 - 16 else v mod 16)"

definition coordX :: "8 word \<Rightarrow> int" where
  "coordX v = nibble (uint v)"

definition coordY :: "8 word \<Rightarrow> int" where
  "coordY v = nibble (uint v div 16)"

definition setX :: "8 word \<Rightarrow> int \<Rightarrow> 8 word" where
  "setX v a = word_of_int (a mod 16 + 16 * (uint v div 16))"

definition setY :: "8 word \<Rightarrow> int \<Rightarrow> 8 word" where
  "setY v a = word_of_int (uint v mod 16 + 16 * (a mod 16))"

definition tileCoordAt :: "int \<Rightarrow> int \<Rightarrow> 8 word" where
  "tileCoordAt a b = setY (setX 0 a) b"

text \<open>Assignment to an \<open>int8_t\<close> keeps the low eight bits, read as two's complement.\<close>

definition i8 :: "int \<Rightarrow> int" where
  "i8 v = (v + 128) mod 256 - 128"

text \<open>Assignment to a \<open>uint8_t\<close>.\<close>

definition u8 :: "int \<Rightarrow> nat" where
  "u8 v = nat (v mod 256)"

text \<open>Conversion of an \<open>int\<close> to \<open>size_t\<close> (64 bits), as a comparison with a
  vector's \<open>size()\<close> performs it.\<close>

definition to_size_t :: "int \<Rightarrow> nat" where
  "to_size_t v = nat (v mod 2 ^ 64)"

section \<open>The field (class field, tile.hpp)\<close>

text \<open>
  \<open>compactFields\<close> holds one \<open>uint16_t\<close> occupancy mask per row, bottom row first;
  \<open>fieldRows\<close> (the vector \<open>fields\<close> of the source) holds the ten cell bytes
  of each row; the version counter is a \<open>uint64_t\<close>.
\<close>

record field =
  compactFields :: "16 word list"
  fieldRows :: "8 word list list"
  fversion :: "64 word"

definition solidRow :: "16 word" where
  "solidRow = push_bit 10 1 - 1"

definition emptyFieldRow :: "8 word list" where
  "emptyFieldRow = replicate 10 0"

definition newField :: field where
  "newField = \<lparr>compactFields = [], fieldRows = [], fversion = 1\<rparr>"

definition compactRowAt :: "field \<Rightarrow> int \<Rightarrow> 16 word" where
  "compactRowAt f y =
     (if y < 0 then solidRow
      else if int (length (compactFields f)) \<le> y then 0
      else compactFields f ! nat y)"

text \<open>
  \<open>rowAt\<close> compares \<open>compactFields.size() <= y\<close> first; the \<open>int\<close> is converted to
  \<open>size_t\<close> for that comparison.
\<close>

definition rowAt :: "field \<Rightarrow> int \<Rightarrow> 8 word \<Rightarrow> 8 word list" where
  "rowAt f y solidCell =
     (if length (compactFields f) \<le> to_size_t y then emptyFieldRow
      else if y < 0 then replicate 10 solidCell
      else fieldRows f ! nat y)"

section \<open>Tiles and path finders (tile.hpp)\<close>

text \<open>
  Exceptions and undefined accesses of the source are results of the model:
  \<open>MismatchedVersion\<close>, \<open>TileNotSpecified\<close>, \<open>TooManyPixels\<close>, \<open>TooManyRotations\<close>
  are the four \<open>std::runtime_error\<close>s; \<open>NullTile\<close> is a dereference of a null tile
  pointer and \<open>OutOfRange\<close> an access outside a vector or array, both undefined in C++.
\<close>

datatype error =
  MismatchedVersion | TileNotSpecified | TooManyPixels | TooManyRotations
  | NullTile | OutOfRange

text \<open>
  The tables of a tile, one entry per orientation: \<open>data\<close> and \<open>loc\<close> hold up to
  \<open>maxNumPixels\<close> cell values and coordinates, \<open>tmin\<close> and \<open>tmax\<close> (the arrays
  \<open>min\<close> and \<open>max\<close>) the bounding box, \<open>compactTile\<close> the packed mask and
  \<open>rotateTable\<close> the kick offsets for each pair of orientations.
\<close>

record tile =
  data :: "8 word list list"
  loc :: "8 word list list"
  tmin :: "8 word list"
  tmax :: "8 word list"
  compactTile :: "64 word list"
  rotateTable :: "8 word list list list"

definition maxNumPixels :: nat where
  "maxNumPixels = 8"

definition maxNumRotations :: nat where
  "maxNumRotations = 12"

text \<open>
  \<open>dir\<close> is the \<open>uint8_t\<close> of a \<open>tileDirection\<close>; \<open>tx\<close> and \<open>ty\<close> are the \<open>int8_t\<close>
  members \<open>x\<close> and \<open>y\<close>, kept as the integers they denote.
\<close>

record tileState =
  dir :: nat
  tx :: int
  ty :: int

text \<open>\<open>tileTyp\<close> is the pointer member \<open>typ\<close>: \<open>None\<close> is \<open>nullptr\<close>.\<close>

record tilePathFinder =
  tileTyp :: "tile option"
  state :: tileState
  version :: "64 word"
  current :: compactField
  previousWallKick :: bool

definition rotateCW :: "nat \<Rightarrow> nat" where
  "rotateCW v = (v + 1) mod 4"

definition rotateCCW :: "nat \<Rightarrow> nat" where
  "rotateCCW v = nat ((int v - 1) mod 4)"

definition halfTurn :: "nat \<Rightarrow> nat" where
  "halfTurn v = (v + 2) mod 4"

definition zeroState :: tileState where
  "zeroState = \<lparr>dir = 0, tx = 0, ty = 0\<rparr>"

text \<open>The three constructors of \<open>tilePathFinder\<close>.\<close>

definition nullPathFinder :: tilePathFinder where
  "nullPathFinder =
     \<lparr>tileTyp = None, state = zeroState, version = 0, current = 0, previousWallKick = False\<rparr>"

definition newPathFinder :: "tile option \<Rightarrow> tileState \<Rightarrow> tilePathFinder" where
  "newPathFinder t st =
     \<lparr>tileTyp = t, state = st, version = 0, current = 0, previousWallKick = False\<rparr>"

definition initTileState :: "tile \<Rightarrow> tileState" where
  "initTileState t = \<lparr>dir = 0, tx = 2, ty = i8 (19 - coordY (tmin t ! 0))\<rparr>"

definition typePathFinder :: "tile \<Rightarrow> tilePathFinder" where
  "typePathFinder t = newPathFinder (Some t) (initTileState t)"

section \<open>Field operations on path finders (tile.cpp)\<close>

definition assertLegit :: "field \<Rightarrow> tilePathFinder \<Rightarrow> bool" where
  "assertLegit f pfd = (\<not> (version pfd \<noteq> 0 \<and> version pfd \<noteq> fversion f))"

text \<open>\<open>isValid\<close> reads \<open>*pfd.typ\<close>; the dereferenced tile is an argument here.\<close>

definition isValid :: "tile \<Rightarrow> tilePathFinder \<Rightarrow> bool" where
  "isValid t pfd =
     (let st = state pfd; d = dir st; mn = tmin t ! d; mx = tmax t ! d
      in if tx st + coordX mn < 0 then False
         else if tx st + coordX mx \<ge> 10 then False
         else if ty st + coordY mx < 0 then False
         else \<not> collide (current pfd) (tileMove (compactTile t ! d) (tx st)))"

definition envalidate :: "field \<Rightarrow> tilePathFinder \<Rightarrow> tilePathFinder" where
  "envalidate f pfd = pfd\<lparr>version := fversion f\<rparr>"

text \<open>
  \<open>spawn\<close> works on its argument in place: the second component of the result is
  the path finder as the caller finds it afterwards.
\<close>

definition field_spawn :: "field \<Rightarrow> tilePathFinder \<Rightarrow> error + (bool \<times> tilePathFinder)" where
  "field_spawn f pfd =
     (case tileTyp pfd of
        None \<Rightarrow> Inl TileNotSpecified
      | Some t \<Rightarrow>
          let st = state pfd;
              cur = foldl (\<lambda>c i. fieldDown c (compactRowAt f (ty st + i - 1))) 0 [6, 5, 4, 3, 2, 1];
              pfd' = pfd\<lparr>current := cur\<rparr>
          in if \<not> isValid t pfd' then Inr (False, pfd')
             else Inr (True, envalidate f pfd'))"

text \<open>
  The two loops of \<open>move\<close>. The increment of the \<open>int8_t\<close> \<open>x\<close> cannot wrap: the
  loop guard bounds it by 9 on the right and by 0 on the left (the bounding box
  nibbles lie in \<open>-8..7\<close>).
\<close>

function moveRight :: "compactField \<Rightarrow> int \<Rightarrow> int \<Rightarrow> compactField \<Rightarrow> int \<Rightarrow> int" where
  "moveRight cur maxx xx tile n =
     (if xx + maxx < 9 \<and> n > 0
      then (let tile' = tileMove tile 1
            in if collide cur tile' then xx
               else moveRight cur maxx (xx + 1) tile' (n - 1))
      else xx)"
  by pat_completeness auto
termination
  by (relation "measure (\<lambda>(cur, maxx, xx, tile, n). nat n)") auto

function moveLeft :: "compactField \<Rightarrow> int \<Rightarrow> int \<Rightarrow> compactField \<Rightarrow> int \<Rightarrow> int" where
  "moveLeft cur minx xx tile n =
     (if xx + minx > 0 \<and> n < 0
      then (let tile' = tileMove tile (- 1)
            in if collide cur tile' then xx
               else moveLeft cur minx (xx - 1) tile' (n + 1))
      else xx)"
  by pat_completeness auto
termination
  by (relation "measure (\<lambda>(cur, minx, xx, tile, n). nat (- n))") auto

text \<open>\<open>numSteps\<close> is the integer the \<open>int8_t\<close> argument denotes.\<close>

definition field_move ::
  "field \<Rightarrow> tilePathFinder \<Rightarrow> int \<Rightarrow> error + (bool \<times> tilePathFinder)" where
  "field_move f pfd numSteps =
     (if \<not> assertLegit f pfd then Inl MismatchedVersion
      else case tileTyp pfd of
        None \<Rightarrow> Inl NullTile
      | Some t \<Rightarrow>
          let st = state pfd; d = dir st;
              tile = tileMove (compactTile t ! d) (tx st);
              xx = (if numSteps > 0
                    then moveRight (current pfd) (coordX (tmax t ! d)) (tx st) tile numSteps
                    else if numSteps < 0
                    then moveLeft (current pfd) (coordX (tmin t ! d)) (tx st) tile numSteps
                    else tx st)
          in if xx = tx st then Inr (False, nullPathFinder)
             else Inr (True, envalidate f
                    ((newPathFinder (tileTyp pfd) st)\<lparr>current := current pfd, state := st\<lparr>tx := xx\<rparr>\<rparr>)))"

text \<open>
  The loop of \<open>drop\<close>: the remaining step count is returned with the path finder.
  \<open>-- result.state.y\<close> is an \<open>int8_t\<close> decrement.
\<close>

fun dropLoop :: "field \<Rightarrow> compactField \<Rightarrow> tilePathFinder \<Rightarrow> nat \<Rightarrow> tilePathFinder \<times> nat" where
  "dropLoop f tile result 0 = (result, 0)"
| "dropLoop f tile result (Suc n) =
     (let cur = fieldDown (current result) (compactRowAt f (ty (state result) - 1))
      in if collide cur tile then (result, Suc n)
         else dropLoop f tile
                (result\<lparr>state := (state result)\<lparr>ty := i8 (ty (state result) - 1)\<rparr>,
                        current := cur\<rparr>) n)"

text \<open>\<open>numSteps\<close> is the value of the \<open>uint8_t\<close> argument.\<close>

definition field_drop ::
  "field \<Rightarrow> tilePathFinder \<Rightarrow> nat \<Rightarrow> error + (bool \<times> tilePathFinder)" where
  "field_drop f pfd numSteps =
     (if \<not> assertLegit f pfd then Inl MismatchedVersion
      else case tileTyp pfd of
        None \<Rightarrow> Inl NullTile
      | Some t \<Rightarrow>
          let st = state pfd; d = dir st;
              result = (newPathFinder (tileTyp pfd) st)\<lparr>current := current pfd\<rparr>;
              tile = tileMove (compactTile t ! d) (tx st);
              (result', left) = dropLoop f tile result numSteps
          in if numSteps = left then Inr (False, nullPathFinder)
             else Inr (True, envalidate f result'))"

text \<open>
  The two inner loops of \<open>rotate\<close> bring the window from row \<open>yy\<close> to row \<open>newY\<close>.
  Both are \<open>int8_t\<close> values and each loop stops at \<open>newY\<close>, so no step wraps.
\<close>

function shiftUp :: "field \<Rightarrow> compactField \<Rightarrow> int \<Rightarrow> int \<Rightarrow> compactField \<times> int" where
  "shiftUp f cur yy newY =
     (if yy < newY
      then shiftUp f (fieldUp cur (ucast (compactRowAt f (yy + 6)))) (yy + 1) newY
      else (cur, yy))"
  by pat_completeness auto
termination
  by (relation "measure (\<lambda>(f, cur, yy, newY). nat (newY - yy))") auto

function shiftDown :: "field \<Rightarrow> compactField \<Rightarrow> int \<Rightarrow> int \<Rightarrow> compactField \<times> int" where
  "shiftDown f cur yy newY =
     (if yy > newY
      then shiftDown f (fieldDown cur (compactRowAt f (yy - 1))) (yy - 1) newY
      else (cur, yy))"
  by pat_completeness auto
termination
  by (relation "measure (\<lambda>(f, cur, yy, newY). nat (yy - newY))") auto

text \<open>
  The kick loop of \<open>rotate\<close> over the entries of the table row: \<open>st\<close> is the state
  of the source path finder, \<open>result\<close> the candidate left by the previous round.
\<close>

fun kickLoop ::
  "field \<Rightarrow> tile \<Rightarrow> tileState \<Rightarrow> tilePathFinder \<Rightarrow> 8 word list \<Rightarrow> tilePathFinder option" where
  "kickLoop f t st result [] = None"
| "kickLoop f t st result (v # vs) =
     (if v = 0 then None
      else
        let newX = i8 (tx st + coordX v);
            newY = i8 (ty st + coordY v);
            (cur1, y1) = shiftUp f (current result) (ty (state result)) newY;
            (cur2, y2) = shiftDown f cur1 y1 newY;
            result' = result\<lparr>state := (state result)\<lparr>tx := newX, ty := y2\<rparr>, current := cur2\<rparr>
        in if isValid t result'
           then Some (envalidate f (result'\<lparr>previousWallKick := True\<rparr>))
           else kickLoop f t st result' vs)"

definition field_rotate ::
  "field \<Rightarrow> tilePathFinder \<Rightarrow> nat \<Rightarrow> error + (bool \<times> tilePathFinder)" where
  "field_rotate f pfd targetDir =
     (if \<not> assertLegit f pfd then Inl MismatchedVersion
      else case tileTyp pfd of
        None \<Rightarrow> Inl NullTile
      | Some t \<Rightarrow>
          let st = state pfd;
              result = (newPathFinder (tileTyp pfd) st)
                         \<lparr>state := st\<lparr>dir := targetDir\<rparr>, current := current pfd\<rparr>
          in if isValid t result then Inr (True, envalidate f result)
             else case kickLoop f t st result
                         (take maxNumRotations (rotateTable t ! dir st ! targetDir)) of
                    Some r \<Rightarrow> Inr (True, r)
                  | None \<Rightarrow> Inr (False, nullPathFinder))"

text \<open>
  The loops of \<open>lock\<close>. The growth loop compares \<open>state.y + max.y\<close>, converted
  to \<open>size_t\<close>, with \<open>fields.size()\<close>; \<open>topRow\<close> is the converted value.
\<close>

function growLoop :: "nat \<Rightarrow> field \<Rightarrow> field" where
  "growLoop topRow f =
     (if topRow \<ge> length (fieldRows f)
      then growLoop topRow
             (f\<lparr>fieldRows := fieldRows f @ [emptyFieldRow], compactFields := compactFields f @ [0]\<rparr>)
      else f)"
  by pat_completeness auto
termination
  by (relation "measure (\<lambda>(topRow, f). Suc topRow - length (fieldRows f))") auto

text \<open>
  The pixel loop runs over the pairs \<open>(data[dir][n], loc[dir][n])\<close> and stops at the
  first zero cell value; the coordinates are \<open>uint8_t\<close>.
\<close>

fun placePixels :: "tileState \<Rightarrow> field \<Rightarrow> (8 word \<times> 8 word) list \<Rightarrow> error + field" where
  "placePixels st f [] = Inr f"
| "placePixels st f ((d, l) # ps) =
     (if d = 0 then Inr f
      else
        let px = u8 (tx st + coordX l);
            py = u8 (ty st + coordY l)
        in if py \<ge> length (fieldRows f) \<or> py \<ge> length (compactFields f) \<or> px \<ge> 10
           then Inl OutOfRange
           else placePixels st
                  (f\<lparr>fieldRows := (fieldRows f)[py := (fieldRows f ! py)[px := d]],
                     compactFields := (compactFields f)[py := compactFields f ! py OR push_bit px 1]\<rparr>)
                  ps)"

definition eraseAt :: "nat \<Rightarrow> 'a list \<Rightarrow> 'a list" where
  "eraseAt n xs = take n xs @ drop (Suc n) xs"

text \<open>
  The erase loop over \<open>j = min.y .. max.y\<close>; \<open>sy\<close> is \<open>state.y\<close>, \<open>clear\<close> the
  \<open>uint8_t\<close> counter.
\<close>

fun eraseLoop :: "int \<Rightarrow> nat list \<Rightarrow> field \<Rightarrow> nat \<Rightarrow> error + (field \<times> nat)" where
  "eraseLoop sy [] f clear = Inr (f, clear)"
| "eraseLoop sy (j # js) f clear =
     (let row = u8 (sy + int j - int clear)
      in if row \<ge> length (compactFields f) then Inl OutOfRange
         else if compactFields f ! row = solidRow
         then (if row \<ge> length (fieldRows f) then Inl OutOfRange
               else eraseLoop sy js
                      (f\<lparr>fieldRows := eraseAt row (fieldRows f),
                         compactFields := eraseAt row (compactFields f)\<rparr>)
                      ((clear + 1) mod 256))
         else eraseLoop sy js f clear)"

text \<open>
  The part of \<open>lock\<close> behind its precondition: grow the field, write the
  pixels, erase the solid rows of the bounding box and advance the version. It
  yields the counter \<open>clear\<close> and the field.
\<close>

definition lockTile :: "field \<Rightarrow> tile \<Rightarrow> tileState \<Rightarrow> error + (nat \<times> field)" where
  "lockTile f t st =
     (let d = dir st; mn = tmin t ! d; mx = tmax t ! d;
          f1 = growLoop (to_size_t (ty st + coordY mx)) f
      in case placePixels st f1
                (zip (take maxNumPixels (data t ! d)) (take maxNumPixels (loc t ! d))) of
           Inl e \<Rightarrow> Inl e
         | Inr f2 \<Rightarrow>
             (case eraseLoop (ty st) [u8 (coordY mn) ..< nat (coordY mx + 1)] f2 0 of
                Inl e \<Rightarrow> Inl e
              | Inr (f3, clear) \<Rightarrow> Inr (clear, f3\<lparr>fversion := fversion f3 + 1\<rparr>)))"

text \<open>
  \<open>lock\<close> returns its boolean, the value left in the output parameter \<open>clear\<close>
  and the field after the call.
\<close>

definition field_lock :: "field \<Rightarrow> tilePathFinder \<Rightarrow> error + (bool \<times> nat \<times> field)" where
  "field_lock f pfd =
     (if \<not> assertLegit f pfd then Inl MismatchedVersion
      else case tileTyp pfd of
        None \<Rightarrow> Inl NullTile
      | Some t \<Rightarrow>
          if \<not> isValid t pfd then Inr (False, 0, f)
          else case field_drop f pfd 1 of
            Inl e \<Rightarrow> Inl e
          | Inr (dropped, nextCondition) \<Rightarrow>
              if dropped then Inr (False, 0, f)
              else (case lockTile f t (state pfd) of
                      Inl e \<Rightarrow> Inl e
                    | Inr (clear, f') \<Rightarrow> Inr (True, clear, f')))"

definition field_grow :: "field \<Rightarrow> 8 word list \<Rightarrow> field" where
  "field_grow f row =
     (let compactLine =
            foldl (\<lambda>c i. c OR (if row ! i \<noteq> 0 then push_bit i 1 else 0)) (0 :: 16 word) [0..<10]
      in f\<lparr>fieldRows := row # fieldRows f,
           compactFields := compactLine # compactFields f,
           fversion := fversion f + 1\<rparr>)"

section \<open>Construction of a tile (tile::tile, tile.cpp)\<close>

text \<open>
  The scan of one orientation visits the cells \<open>input[i][5-y][x]\<close> for \<open>y\<close> and
  then \<open>x\<close> from 0 to 5. The bounding box nibbles start at 0 and are replaced when
  they are 0 or beaten.
\<close>

record pixelScan =
  sdata :: "8 word list"
  sloc :: "8 word list"
  scompact :: "64 word"
  vmin :: "8 word"
  vmax :: "8 word"

definition scanCell :: "8 word list list \<Rightarrow> pixelScan \<Rightarrow> nat \<times> nat \<Rightarrow> error + pixelScan" where
  "scanCell inp s c =
     (let yy = fst c; xx = snd c; v = inp ! (5 - yy) ! xx
      in if v = 0 then Inr s
         else if length (sdata s) \<ge> maxNumPixels then Inl TooManyPixels
         else
           let mn1 = (if coordX (vmin s) = 0 \<or> coordX (vmin s) > int xx
                      then setX (vmin s) (int xx) else vmin s);
               mn2 = (if coordY mn1 = 0 \<or> coordY mn1 > int yy then setY mn1 (int yy) else mn1);
               mx1 = (if coordX (vmax s) = 0 \<or> coordX (vmax s) < int xx
                      then setX (vmax s) (int xx) else vmax s);
               mx2 = (if coordY mx1 = 0 \<or> coordY mx1 < int yy then setY mx1 (int yy) else mx1)
           in Inr \<lparr>sdata = sdata s @ [v],
                   sloc = sloc s @ [tileCoordAt (int xx) (int yy)],
                   scompact = scompact s OR push_bit (10 * yy) (push_bit xx 1),
                   vmin = mn2, vmax = mx2\<rparr>)"

fun foldE :: "('s \<Rightarrow> 'a \<Rightarrow> error + 's) \<Rightarrow> 's \<Rightarrow> 'a list \<Rightarrow> error + 's" where
  "foldE g s [] = Inr s"
| "foldE g s (a # as) = (case g s a of Inl e \<Rightarrow> Inl e | Inr s' \<Rightarrow> foldE g s' as)"

definition scanOrientation :: "8 word list list \<Rightarrow> error + pixelScan" where
  "scanOrientation inp =
     foldE (scanCell inp) \<lparr>sdata = [], sloc = [], scompact = 0, vmin = 0, vmax = 0\<rparr>
       (List.product [0..<6] [0..<6])"

text \<open>
  The entries after the terminating 0 of a pixel list or of a kick list are never
  written by the constructor and never read by the field; they are 0 here.
\<close>

definition padTo :: "nat \<Rightarrow> 8 word list \<Rightarrow> 8 word list" where
  "padTo n xs = xs @ replicate (n - length xs) 0"

text \<open>
  A rotation table is the array \<open>uint8_t[4][4][12]\<close> handed over by the caller,
  read as a function of its three indices. The copy loop tests
  \<open>rotation[i][j][numRotations] != 0\<close> before it compares \<open>numRotations\<close> with
  \<open>maxNumRotations\<close>: after twelve nonzero entries it reads the byte that follows
  the row, which is the first entry of the next row of the array (\<open>pastRow\<close>; for
  the last row it is the byte that follows the array in the memory of the caller,
  written \<open>rotation 4 0 0\<close>). Only if that byte is nonzero the constructor throws;
  otherwise the row is copied with its twelve entries and no terminator, and
  \<open>field::rotate\<close> stops after \<open>maxNumRotations\<close> entries by its own bound.
\<close>

type_synonym tileRotationTable = "nat \<Rightarrow> nat \<Rightarrow> nat \<Rightarrow> 8 word"

definition pastRow :: "tileRotationTable \<Rightarrow> nat \<Rightarrow> nat \<Rightarrow> 8 word" where
  "pastRow rotation i j = (if j < 3 then rotation i (Suc j) 0 else rotation (Suc i) 0 0)"

definition copyRotation :: "tileRotationTable \<Rightarrow> nat \<Rightarrow> nat \<Rightarrow> error + 8 word list" where
  "copyRotation rotation i j =
     (let entries = takeWhile (\<lambda>v. v \<noteq> 0) (map (rotation i j) [0..<maxNumRotations])
      in if length entries < maxNumRotations then Inr (padTo maxNumRotations entries)
         else if pastRow rotation i j \<noteq> 0 then Inl TooManyRotations
         else Inr entries)"

fun mapE :: "('a \<Rightarrow> error + 'b) \<Rightarrow> 'a list \<Rightarrow> error + 'b list" where
  "mapE g [] = Inr []"
| "mapE g (a # as) =
     (case g a of
        Inl e \<Rightarrow> Inl e
      | Inr b \<Rightarrow> (case mapE g as of Inl e \<Rightarrow> Inl e | Inr bs \<Rightarrow> Inr (b # bs)))"

definition mkTile :: "8 word list list list \<Rightarrow> tileRotationTable \<Rightarrow> error + tile" where
  "mkTile inp rotation =
     (case mapE (\<lambda>i. scanOrientation (inp ! i)) [0..<4] of
        Inl e \<Rightarrow> Inl e
      | Inr scans \<Rightarrow>
          (case mapE (\<lambda>i. mapE (copyRotation rotation i) [0..<4]) [0..<4] of
             Inl e \<Rightarrow> Inl e
           | Inr rot \<Rightarrow>
               Inr \<lparr>data = map (\<lambda>s. padTo maxNumPixels (sdata s)) scans,
                    loc = map (\<lambda>s. padTo maxNumPixels (sloc s)) scans,
                    tmin = map vmin scans,
                    tmax = map vmax scans,
                    compactTile = map scompact scans,
                    rotateTable = rot\<rparr>))"

section \<open>Tetrominoes (tetromino.cpp)\<close>

text \<open>The enumerators \<open>tetromino::J\<close> to \<open>tetromino::O\<close>, numbered from 1.\<close>

datatype tetromino = TetJ | TetL | TetS | TetZ | TetT | TetI | TetO

primrec tetrominoCode :: "tetromino \<Rightarrow> 8 word" where
  "tetrominoCode TetJ = 1"
| "tetrominoCode TetL = 2"
| "tetrominoCode TetS = 3"
| "tetrominoCode TetZ = 4"
| "tetrominoCode TetT = 5"
| "tetrominoCode TetI = 6"
| "tetrominoCode TetO = 7"

text \<open>The bitmaps of the source, with \<open>e\<close> for \<open>_\<close> and \<open>v\<close> for \<open>$\<close>.\<close>

primrec tetrominoBitmap :: "tetromino \<Rightarrow> 8 word \<Rightarrow> 8 word \<Rightarrow> 8 word list list list" where
  "tetrominoBitmap TetJ e v =
      [
       [[e,e,e,e,e,e], [e,e,e,e,e,e], [e,v,e,e,e,e],
        [e,v,v,v,e,e], [e,e,e,e,e,e], [e,e,e,e,e,e]],
       [[e,e,e,e,e,e], [e,e,e,e,e,e], [e,e,v,v,e,e],
        [e,e,v,e,e,e], [e,e,v,e,e,e], [e,e,e,e,e,e]],
       [[e,e,e,e,e,e], [e,e,e,e,e,e], [e,e,e,e,e,e],
        [e,v,v,v,e,e], [e,e,e,v,e,e], [e,e,e,e,e,e]],
       [[e,e,e,e,e,e], [e,e,e,e,e,e], [e,e,v,e,e,e],
        [e,e,v,e,e,e], [e,v,v,e,e,e], [e,e,e,e,e,e]]]"
| "tetrominoBitmap TetL e v =
      [
       [[e,e,e,e,e,e], [e,e,e,e,e,e], [e,e,e,v,e,e],
        [e,v,v,v,e,e], [e,e,e,e,e,e], [e,e,e,e,e,e]],
       [[e,e,e,e,e,e], [e,e,e,e,e,e], [e,e,v,e,e,e],
        [e,e,v,e,e,e], [e,e,v,v,e,e], [e,e,e,e,e,e]],
       [[e,e,e,e,e,e], [e,e,e,e,e,e], [e,e,e,e,e,e],
        [e,v,v,v,e,e], [e,v,e,e,e,e], [e,e,e,e,e,e]],
       [[e,e,e,e,e,e], [e,e,e,e,e,e], [e,v,v,e,e,e],
        [e,e,v,e,e,e], [e,e,v,e,e,e], [e,e,e,e,e,e]]]"
| "tetrominoBitmap TetS e v =
      [
       [[e,e,e,e,e,e], [e,e,e,e,e,e], [e,e,v,v,e,e],
        [e,v,v,e,e,e], [e,e,e,e,e,e], [e,e,e,e,e,e]],
       [[e,e,e,e,e,e], [e,e,e,e,e,e], [e,e,v,e,e,e],
        [e,e,v,v,e,e], [e,e,e,v,e,e], [e,e,e,e,e,e]],
       [[e,e,e,e,e,e], [e,e,e,e,e,e], [e,e,e,e,e,e],
        [e,e,v,v,e,e], [e,v,v,e,e,e], [e,e,e,e,e,e]],
       [[e,e,e,e,e,e], [e,e,e,e,e,e], [e,v,e,e,e,e],
        [e,v,v,e,e,e], [e,e,v,e,e,e], [e,e,e,e,e,e]]]"
| "tetrominoBitmap TetZ e v =
      [
       [[e,e,e,e,e,e], [e,e,e,e,e,e], [e,v,v,e,e,e],
        [e,e,v,v,e,e], [e,e,e,e,e,e], [e,e,e,e,e,e]],
       [[e,e,e,e,e,e], [e,e,e,e,e,e], [e,e,e,v,e,e],
        [e,e,v,v,e,e], [e,e,v,e,e,e], [e,e,e,e,e,e]],
       [[e,e,e,e,e,e], [e,e,e,e,e,e], [e,e,e,e,e,e],
        [e,v,v,e,e,e], [e,e,v,v,e,e], [e,e,e,e,e,e]],
       [[e,e,e,e,e,e], [e,e,e,e,e,e], [e,e,v,e,e,e],
        [e,v,v,e,e,e], [e,v,e,e,e,e], [e,e,e,e,e,e]]]"
| "tetrominoBitmap TetI e v =
      [
       [[e,e,e,e,e,e], [e,e,e,e,e,e], [e,v,v,v,v,e],
        [e,e,e,e,e,e], [e,e,e,e,e,e], [e,e,e,e,e,e]],
       [[e,e,e,e,e,e], [e,e,e,v,e,e], [e,e,e,v,e,e],
        [e,e,e,v,e,e], [e,e,e,v,e,e], [e,e,e,e,e,e]],
       [[e,e,e,e,e,e], [e,e,e,e,e,e], [e,e,e,e,e,e],
        [e,v,v,v,v,e], [e,e,e,e,e,e], [e,e,e,e,e,e]],
       [[e,e,e,e,e,e], [e,e,v,e,e,e], [e,e,v,e,e,e],
        [e,e,v,e,e,e], [e,e,v,e,e,e], [e,e,e,e,e,e]]]"
| "tetrominoBitmap TetO e v =
      [
       [[e,e,e,e,e,e], [e,e,e,e,e,e], [e,e,v,v,e,e],
        [e,e,v,v,e,e], [e,e,e,e,e,e], [e,e,e,e,e,e]],
       [[e,e,e,e,e,e], [e,e,e,e,e,e], [e,e,v,v,e,e],
        [e,e,v,v,e,e], [e,e,e,e,e,e], [e,e,e,e,e,e]],
       [[e,e,e,e,e,e], [e,e,e,e,e,e], [e,e,v,v,e,e],
        [e,e,v,v,e,e], [e,e,e,e,e,e], [e,e,e,e,e,e]],
       [[e,e,e,e,e,e], [e,e,e,e,e,e], [e,e,v,v,e,e],
        [e,e,v,v,e,e], [e,e,e,e,e,e], [e,e,e,e,e,e]]]"
| "tetrominoBitmap TetT e v =
      [
       [[e,e,e,e,e,e], [e,e,e,e,e,e], [e,e,v,e,e,e],
        [e,v,v,v,e,e], [e,e,e,e,e,e], [e,e,e,e,e,e]],
       [[e,e,e,e,e,e], [e,e,e,e,e,e], [e,e,v,e,e,e],
        [e,e,v,v,e,e], [e,e,v,e,e,e], [e,e,e,e,e,e]],
       [[e,e,e,e,e,e], [e,e,e,e,e,e], [e,e,e,e,e,e],
        [e,v,v,v,e,e], [e,e,v,e,e,e], [e,e,e,e,e,e]],
       [[e,e,e,e,e,e], [e,e,e,e,e,e], [e,e,v,e,e,e],
        [e,v,v,e,e,e], [e,e,v,e,e,e], [e,e,e,e,e,e]]]"
definition createTetrominoTileData :: "tetromino \<Rightarrow> 8 word \<Rightarrow> 8 word list list list" where
  "createTetrominoTileData t v = tetrominoBitmap t 0 (if v = 0 then tetrominoCode t else v)"

text \<open>
  \<open>createTetrominoRotation\<close> writes into the caller's array; \<open>init\<close> is what the
  array holds before the call (both callers in the repository pass an
  uninitialised local array).
\<close>

definition setEntry :: "tileRotationTable \<Rightarrow> nat \<Rightarrow> nat \<Rightarrow> nat \<Rightarrow> 8 word \<Rightarrow> tileRotationTable" where
  "setEntry tab i j k v = (\<lambda>i' j' k'. if i' = i \<and> j' = j \<and> k' = k then v else tab i' j' k')"

definition setEntries :: "tileRotationTable \<Rightarrow> nat \<Rightarrow> nat \<Rightarrow> 8 word list \<Rightarrow> tileRotationTable" where
  "setEntries tab i j vs = foldl (\<lambda>tb (k, v). setEntry tb i j k v) tab (zip [0..<length vs] vs)"

definition clearHeads :: "tileRotationTable \<Rightarrow> tileRotationTable" where
  "clearHeads tab = foldl (\<lambda>tb (i, j). setEntry tb i j 0 0) tab (List.product [0..<4] [0..<4])"

definition linearKicks :: "tileRotationTable \<Rightarrow> tileRotationTable" where
  "linearKicks tab =
     setEntries (setEntries (setEntries (setEntries tab
       0 1 [tileCoordAt (- 2) 0, tileCoordAt 1 0, tileCoordAt (- 2) (- 1), tileCoordAt 1 2, 0])
       1 2 [tileCoordAt 2 0, tileCoordAt (- 1) 0, tileCoordAt (- 1) 2, tileCoordAt 2 (- 1), 0])
       2 3 [tileCoordAt 2 0, tileCoordAt (- 1) 0, tileCoordAt 2 1, tileCoordAt (- 1) (- 2), 0])
       3 0 [tileCoordAt (- 2) 0, tileCoordAt 1 0, tileCoordAt 1 (- 2), tileCoordAt (- 2) 1, 0]"

definition boxKicks :: "tileRotationTable \<Rightarrow> tileRotationTable" where
  "boxKicks tab =
     setEntries (setEntries (setEntries (setEntries tab
       0 1 [tileCoordAt (- 1) 0, tileCoordAt (- 1) 1, tileCoordAt 0 (- 2), tileCoordAt (- 1) (- 2), 0])
       1 2 [tileCoordAt 1 0, tileCoordAt 1 (- 1), tileCoordAt 0 2, tileCoordAt 1 2, 0])
       2 3 [tileCoordAt 1 0, tileCoordAt 1 1, tileCoordAt 0 (- 2), tileCoordAt 1 (- 2), 0])
       3 0 [tileCoordAt (- 1) 0, tileCoordAt (- 1) (- 1), tileCoordAt 0 2, tileCoordAt (- 1) 2, 0]"

text \<open>
  The \<open>switch\<close> of \<open>createTetrominoRotation\<close>: \<open>boxKicks\<close> for J, L, S, Z and T,
  \<open>linearKicks\<close> for I, nothing for O.
\<close>

primrec forwardKicks :: "tetromino \<Rightarrow> tileRotationTable \<Rightarrow> tileRotationTable" where
  "forwardKicks TetJ tab = boxKicks tab"
| "forwardKicks TetL tab = boxKicks tab"
| "forwardKicks TetS tab = boxKicks tab"
| "forwardKicks TetZ tab = boxKicks tab"
| "forwardKicks TetT tab = boxKicks tab"
| "forwardKicks TetI tab = linearKicks tab"
| "forwardKicks TetO tab = tab"

definition negateCoord :: "8 word \<Rightarrow> 8 word" where
  "negateCoord v = (let v1 = setX v (- coordX v) in setY v1 (- coordY v1))"

text \<open>The innermost loop of the inverse transform, over \<open>k\<close>, with its \<open>break\<close>.\<close>

fun inverseEntries :: "nat \<Rightarrow> nat \<Rightarrow> nat list \<Rightarrow> tileRotationTable \<Rightarrow> tileRotationTable" where
  "inverseEntries i j [] tab = tab"
| "inverseEntries i j (k # ks) tab =
     (let v = tab i j k
      in if v = 0 then tab
         else inverseEntries i j ks (setEntry tab j i k (negateCoord v)))"

definition inverseTransform :: "tileRotationTable \<Rightarrow> tileRotationTable" where
  "inverseTransform tab =
     foldl (\<lambda>tb (i, j). inverseEntries i j [0..<5] tb) tab (List.product [0..<4] [0..<4])"

definition createTetrominoRotation :: "tileRotationTable \<Rightarrow> tetromino \<Rightarrow> tileRotationTable" where
  "createTetrominoRotation init t = inverseTransform (forwardKicks t (clearHeads init))"

section \<open>The bag generator (generator.cpp)\<close>

text \<open>
  \<open>std::shuffle\<close> and the \<open>std::mt19937\<close> engine are library code: \<open>shuffle\<close> is a
  parameter that takes the engine state and the array and returns the permuted
  array and the next engine state. \<open>workData\<close> is the engine, \<open>pointer\<close> the
  \<open>int\<close> cursor (never negative).
\<close>

record ('a, 'r) tilePermutator =
  series :: "'a list"
  numTiles :: nat
  pointer :: nat
  workData :: 'r

definition permutate ::
  "('r \<Rightarrow> 'a list \<Rightarrow> 'a list \<times> 'r) \<Rightarrow> ('a, 'r) tilePermutator \<Rightarrow> ('a, 'r) tilePermutator" where
  "permutate shuffle g =
     (let (s, w) = shuffle (workData g) (series g) in g\<lparr>series := s, workData := w\<rparr>)"

text \<open>The constructor; \<open>engine\<close> is the engine as seeded.\<close>

definition newPermutator ::
  "('r \<Rightarrow> 'a list \<Rightarrow> 'a list \<times> 'r) \<Rightarrow> 'a list \<Rightarrow> 'r \<Rightarrow> ('a, 'r) tilePermutator" where
  "newPermutator shuffle tiles engine =
     permutate shuffle \<lparr>series = tiles, numTiles = length tiles, pointer = 0, workData = engine\<rparr>"

text \<open>\<open>generate\<close> reads \<open>series[pointer]\<close>; outside the array that read is undefined.\<close>

definition generate ::
  "('r \<Rightarrow> 'a list \<Rightarrow> 'a list \<times> 'r) \<Rightarrow> ('a, 'r) tilePermutator
     \<Rightarrow> error + ('a \<times> ('a, 'r) tilePermutator)" where
  "generate shuffle g =
     (if pointer g \<ge> length (series g) then Inl OutOfRange
      else
        let result = series g ! pointer g;
            p = pointer g + 1
        in if p \<ge> numTiles g then Inr (result, permutate shuffle (g\<lparr>pointer := 0\<rparr>))
           else Inr (result, g\<lparr>pointer := p\<rparr>))"

text \<open>\<open>n\<close> successive calls of a generator, with the values they return in order.\<close>

fun generateN :: "('g \<Rightarrow> error + ('a \<times> 'g)) \<Rightarrow> nat \<Rightarrow> 'g \<Rightarrow> error + ('a list \<times> 'g)" where
  "generateN gen 0 g = Inr ([], g)"
| "generateN gen (Suc n) g =
     (case gen g of
        Inl e \<Rightarrow> Inl e
      | Inr (a, g') \<Rightarrow>
          (case generateN gen n g' of
             Inl e \<Rightarrow> Inl e
           | Inr (as, g'') \<Rightarrow> Inr (a # as, g'')))"

section \<open>The playground (playground.hpp, playground.cpp)\<close>

datatype playgroundState = notStarted | inGame | topOut | exhausted | completed

text \<open>
  The events handed to the listeners, in the order of dispatch. Listeners are
  observers here: a listener that calls back into the playground is outside the
  model.
\<close>

datatype event =
    TileSpawn tile tileState tileState
  | TileMove tile tileState tileState tileState tileState bool
  | TileBeforeLock tile tileState
  | TileLock tile tileState nat
  | TileSwap tile tileState tileState
  | GameEnd playgroundState

text \<open>
  The members of \<open>playground\<close>: \<open>pgField\<close>, \<open>pgCurrent\<close>, \<open>pgShadow\<close> and \<open>pgState\<close>
  are \<open>f\<close>, \<open>current\<close>, \<open>shadow\<close> and \<open>state\<close>; \<open>generator\<close> is the state of the
  generator behind the pointer; \<open>preview\<close> is the array of \<open>numPreviews\<close> pointers
  that the constructor allocates; \<open>events\<close> collects what \<open>dispatch\<close> sends.
\<close>

record 'g playground =
  pgField :: field
  generator :: 'g
  swap :: "tile option"
  swapEnabled :: bool
  pgCurrent :: tilePathFinder
  pgShadow :: tilePathFinder
  numPreviews :: nat
  preview :: "tile option list"
  previewCursor :: nat
  pgState :: playgroundState
  events :: "event list"

definition dispatch :: "event \<Rightarrow> 'g playground \<Rightarrow> 'g playground" where
  "dispatch e pg = pg\<lparr>events := events pg @ [e]\<rparr>"

definition isInGame :: "'g playground \<Rightarrow> bool" where
  "isInGame pg = (pgState pg = inGame)"

definition isSwapEnabled :: "'g playground \<Rightarrow> bool" where
  "isSwapEnabled pg = swapEnabled pg"

text \<open>The constructor draws \<open>numPreviews\<close> tiles from the generator \<open>gen\<close>.\<close>

definition newPlayground ::
  "('g \<Rightarrow> error + (tile option \<times> 'g)) \<Rightarrow> 'g \<Rightarrow> nat \<Rightarrow> error + 'g playground" where
  "newPlayground gen g n =
     (case generateN gen n g of
        Inl e \<Rightarrow> Inl e
      | Inr (ts, g') \<Rightarrow>
          Inr \<lparr>pgField = newField, generator = g', swap = None, swapEnabled = True,
               pgCurrent = nullPathFinder, pgShadow = nullPathFinder,
               numPreviews = n, preview = ts, previewCursor = 0,
               pgState = notStarted, events = []\<rparr>)"

text \<open>\<open>spawnTile\<close> is only called with a tile pointer that is not null.\<close>

definition spawnTile :: "'g playground \<Rightarrow> tile \<Rightarrow> error + 'g playground" where
  "spawnTile pg t =
     (case field_spawn (pgField pg) (typePathFinder t) of
        Inl e \<Rightarrow> Inl e
      | Inr (spawned, cur) \<Rightarrow>
          if \<not> spawned
          then Inr (dispatch (GameEnd topOut)
                 (dispatch (TileSpawn t (state (typePathFinder t)) (state (typePathFinder t)))
                   (pg\<lparr>pgCurrent := typePathFinder t, pgShadow := typePathFinder t,
                       pgState := topOut\<rparr>)))
          else
            (case field_drop (pgField pg) cur 20 of
               Inl e \<Rightarrow> Inl e
             | Inr (dropped, newShadow) \<Rightarrow>
                 let sh = (if dropped then newShadow else typePathFinder t)
                 in Inr (dispatch (TileSpawn t (state cur) (state sh))
                      (pg\<lparr>pgCurrent := cur, pgShadow := sh\<rparr>))))"

definition spawnNextTile ::
  "('g \<Rightarrow> error + (tile option \<times> 'g)) \<Rightarrow> 'g playground \<Rightarrow> error + 'g playground" where
  "spawnNextTile gen pg =
     (if previewCursor pg \<ge> length (preview pg) then Inl OutOfRange
      else case preview pg ! previewCursor pg of
        None \<Rightarrow>
          Inr (dispatch (GameEnd exhausted)
            (pg\<lparr>pgCurrent := nullPathFinder, pgShadow := nullPathFinder, pgState := exhausted\<rparr>))
      | Some currentType \<Rightarrow>
          let previous = (if previewCursor pg = 0 then preview pg ! (numPreviews pg - 1)
                          else preview pg ! (previewCursor pg - 1))
          in case (if previous \<noteq> None then gen (generator pg) else Inr (None, generator pg)) of
               Inl e \<Rightarrow> Inl e
             | Inr (next, g') \<Rightarrow>
                 spawnTile
                   (pg\<lparr>generator := g',
                       preview := (preview pg)[previewCursor pg := next],
                       previewCursor := (if previewCursor pg + 1 \<ge> numPreviews pg then 0
                                         else previewCursor pg + 1)\<rparr>)
                   currentType)"

definition start ::
  "('g \<Rightarrow> error + (tile option \<times> 'g)) \<Rightarrow> 'g playground \<Rightarrow> error + 'g playground" where
  "start gen pg =
     (if pgState pg \<noteq> notStarted then Inr pg
      else spawnNextTile gen (pg\<lparr>pgState := inGame\<rparr>))"

definition complete :: "'g playground \<Rightarrow> 'g playground" where
  "complete pg =
     (if pgState pg \<noteq> inGame then pg
      else dispatch (GameEnd completed) (pg\<lparr>pgState := completed\<rparr>))"

text \<open>
  The private \<open>tileMove\<close>: the new path finder becomes current, the shadow is
  dropped from it, and the move event names the tile through \<open>*current.getType()\<close>.
\<close>

definition tileMoved :: "'g playground \<Rightarrow> tilePathFinder \<Rightarrow> error + 'g playground" where
  "tileMoved pg pfd =
     (case field_drop (pgField pg) pfd 20 of
        Inl e \<Rightarrow> Inl e
      | Inr (dropped, dropShadow) \<Rightarrow>
          let newShadow = (if dropped then dropShadow else pfd)
          in case tileTyp pfd of
               None \<Rightarrow> Inl NullTile
             | Some t \<Rightarrow>
                 Inr (dispatch
                        (TileMove t (state (pgCurrent pg)) (state (pgShadow pg))
                           (state pfd) (state newShadow) (previousWallKick pfd))
                        (pg\<lparr>pgCurrent := pfd, pgShadow := newShadow\<rparr>)))"

definition playground_move :: "'g playground \<Rightarrow> int \<Rightarrow> error + (bool \<times> 'g playground)" where
  "playground_move pg movement =
     (if \<not> isInGame pg then Inr (False, pg)
      else case field_move (pgField pg) (pgCurrent pg) movement of
        Inl e \<Rightarrow> Inl e
      | Inr (moved, pfd) \<Rightarrow>
          if \<not> moved then Inr (False, pg)
          else (case tileMoved pg pfd of Inl e \<Rightarrow> Inl e | Inr pg' \<Rightarrow> Inr (True, pg')))"

definition playground_drop :: "'g playground \<Rightarrow> nat \<Rightarrow> error + (bool \<times> 'g playground)" where
  "playground_drop pg movement =
     (if \<not> isInGame pg then Inr (False, pg)
      else case field_drop (pgField pg) (pgCurrent pg) movement of
        Inl e \<Rightarrow> Inl e
      | Inr (moved, pfd) \<Rightarrow>
          if \<not> moved then Inr (False, pg)
          else (case tileMoved pg pfd of Inl e \<Rightarrow> Inl e | Inr pg' \<Rightarrow> Inr (True, pg')))"

definition playground_rotate :: "'g playground \<Rightarrow> nat \<Rightarrow> error + (bool \<times> 'g playground)" where
  "playground_rotate pg newDir =
     (if \<not> isInGame pg then Inr (False, pg)
      else case field_rotate (pgField pg) (pgCurrent pg) newDir of
        Inl e \<Rightarrow> Inl e
      | Inr (moved, pfd) \<Rightarrow>
          if \<not> moved then Inr (False, pg)
          else (case tileMoved pg pfd of Inl e \<Rightarrow> Inl e | Inr pg' \<Rightarrow> Inr (True, pg')))"

definition playground_rotateCW :: "'g playground \<Rightarrow> error + (bool \<times> 'g playground)" where
  "playground_rotateCW pg =
     (if \<not> isInGame pg then Inr (False, pg)
      else playground_rotate pg (rotateCW (dir (state (pgCurrent pg)))))"

definition playground_rotateCCW :: "'g playground \<Rightarrow> error + (bool \<times> 'g playground)" where
  "playground_rotateCCW pg =
     (if \<not> isInGame pg then Inr (False, pg)
      else playground_rotate pg (rotateCCW (dir (state (pgCurrent pg)))))"

definition playground_halfTurn :: "'g playground \<Rightarrow> error + (bool \<times> 'g playground)" where
  "playground_halfTurn pg =
     (if \<not> isInGame pg then Inr (False, pg)
      else playground_rotate pg (halfTurn (dir (state (pgCurrent pg)))))"

text \<open>
  \<open>hardDrop\<close> ignores what \<open>drop(20)\<close> and \<open>lock\<close> return; the tile of the lock
  events is \<open>*current.getType()\<close> after the drop.
\<close>

definition hardDrop ::
  "('g \<Rightarrow> error + (tile option \<times> 'g)) \<Rightarrow> 'g playground \<Rightarrow> error + (bool \<times> 'g playground)" where
  "hardDrop gen pg =
     (if \<not> isInGame pg then Inr (False, pg)
      else case playground_drop pg 20 of
        Inl e \<Rightarrow> Inl e
      | Inr (dropped, pg1) \<Rightarrow>
          (case tileTyp (pgCurrent pg1) of
             None \<Rightarrow> Inl NullTile
           | Some t \<Rightarrow>
               let location = state (pgCurrent pg1);
                   pg2 = dispatch (TileBeforeLock t location) pg1
               in case field_lock (pgField pg2) (pgCurrent pg2) of
                    Inl e \<Rightarrow> Inl e
                  | Inr (locked, clear, f') \<Rightarrow>
                      let pg3 = dispatch (TileLock t location clear)
                                  (pg2\<lparr>pgField := f', pgCurrent := nullPathFinder,
                                       pgShadow := nullPathFinder, swapEnabled := True\<rparr>)
                      in if isInGame pg3
                         then (case spawnNextTile gen pg3 of
                                 Inl e \<Rightarrow> Inl e
                               | Inr pg4 \<Rightarrow> Inr (True, pg4))
                         else Inr (True, pg3)))"

definition swapTile ::
  "('g \<Rightarrow> error + (tile option \<times> 'g)) \<Rightarrow> 'g playground \<Rightarrow> error + (bool \<times> 'g playground)" where
  "swapTile gen pg =
     (if \<not> isInGame pg then Inr (False, pg)
      else if \<not> swapEnabled pg then Inr (False, pg)
      else case tileTyp (pgCurrent pg) of
        None \<Rightarrow> Inl NullTile
      | Some t \<Rightarrow>
          let previous = swap pg;
              pg1 = dispatch (TileSwap t (state (pgCurrent pg)) (state (pgShadow pg)))
                      (pg\<lparr>pgCurrent := nullPathFinder, pgShadow := nullPathFinder,
                          swap := Some t, swapEnabled := (previous = None)\<rparr>)
          in case (case previous of
                     None \<Rightarrow> spawnNextTile gen pg1
                   | Some held \<Rightarrow> spawnTile pg1 held) of
               Inl e \<Rightarrow> Inl e
             | Inr pg2 \<Rightarrow> Inr (True, pg2))"

text \<open>The public commands of a playground, and a run of them from left to right.\<close>

datatype command =
  Start | Complete | Move int | Drop nat | RotateCW | RotateCCW | HalfTurn | HardDrop | SwapTile

fun step ::
  "('g \<Rightarrow> error + (tile option \<times> 'g)) \<Rightarrow> 'g playground \<Rightarrow> command \<Rightarrow> error + 'g playground" where
  "step gen pg Start = start gen pg"
| "step gen pg Complete = Inr (complete pg)"
| "step gen pg (Move n) = map_sum id snd (playground_move pg n)"
| "step gen pg (Drop n) = map_sum id snd (playground_drop pg n)"
| "step gen pg RotateCW = map_sum id snd (playground_rotateCW pg)"
| "step gen pg RotateCCW = map_sum id snd (playground_rotateCCW pg)"
| "step gen pg HalfTurn = map_sum id snd (playground_halfTurn pg)"
| "step gen pg HardDrop = map_sum id snd (hardDrop gen pg)"
| "step gen pg SwapTile = map_sum id snd (swapTile gen pg)"

fun run ::
  "('g \<Rightarrow> error + (tile option \<times> 'g)) \<Rightarrow> 'g playground \<Rightarrow> command list \<Rightarrow> error + 'g playground" where
  "run gen pg [] = Inr pg"
| "run gen pg (c # cs) = (case step gen pg c of Inl e \<Rightarrow> Inl e | Inr pg' \<Rightarrow> run gen pg' cs)"

section \<open>Validity against the field\<close>

text \<open>
  The window of six rows of the field that starts at row \<open>y\<close>, built as \<open>spawn\<close>
  builds it: the rows are folded in from the top one down to row \<open>y\<close>.
\<close>

fun win :: "field \<Rightarrow> int \<Rightarrow> nat \<Rightarrow> compactField" where
  "win f y 0 = 0"
| "win f y (Suc n) = fieldDown (win f (y + 1) n) (compactRowAt f y)"

definition windowAt :: "field \<Rightarrow> int \<Rightarrow> compactField" where
  "windowAt f y = win f y 6"

text \<open>
  The tables of orientation \<open>d\<close> agree: every cell of the packed mask lies in the
  six rows, inside the bounding box, and the top and bottom rows of the box hold
  a cell.
\<close>

definition tileShapeOK :: "tile \<Rightarrow> nat \<Rightarrow> bool" where
  "tileShapeOK t d =
     (let m = compactTile t ! d; mn = tmin t ! d; mx = tmax t ! d
      in list_all (\<lambda>i. bit m i \<longrightarrow>
             i < 60 \<and> coordX mn \<le> int (i mod 10) \<and> int (i mod 10) \<le> coordX mx
             \<and> coordY mn \<le> int (i div 10) \<and> int (i div 10) \<le> coordY mx) [0..<64]
         \<and> list_ex (\<lambda>i. bit m i \<and> int (i div 10) = coordY mx) [0..<60]
         \<and> list_ex (\<lambda>i. bit m i \<and> int (i div 10) = coordY mn) [0..<60])"

definition maskInBox :: "64 word \<Rightarrow> int \<Rightarrow> int \<Rightarrow> bool" where
  "maskInBox m minx maxx \<longleftrightarrow>
     (\<forall>i. bit m i \<longrightarrow> i < 60 \<and> minx \<le> int (i mod 10) \<and> int (i mod 10) \<le> maxx)"

text \<open>
  The pixel list of orientation \<open>d\<close> agrees with the mask: every pixel with a
  nonzero value sits on a cell of the mask.
\<close>

definition tilePixelsOK :: "tile \<Rightarrow> nat \<Rightarrow> bool" where
  "tilePixelsOK t d =
     (0 \<le> coordY (tmin t ! d)
      \<and> list_all (\<lambda>(v, l). v \<noteq> 0 \<longrightarrow>
            0 \<le> coordX l \<and> 0 \<le> coordY l
            \<and> bit (compactTile t ! d) (nat (coordX l) + 10 * nat (coordY l)))
          (zip (take maxNumPixels (data t ! d)) (take maxNumPixels (loc t ! d))))"

text \<open>The two row vectors of a field have the same length.\<close>

definition fieldOK :: "field \<Rightarrow> bool" where
  "fieldOK f \<longleftrightarrow> length (compactFields f) = length (fieldRows f)"

text \<open>
  A path finder of tile \<open>t\<close> that is valid against the field \<open>f\<close>: it passes the
  version check, its cached window is the window of the field at its row, and
  \<open>isValid\<close> accepts it. (\<open>ty\<close> is an \<open>int8_t\<close>, hence at most 127.)
\<close>

definition pathFinderOK :: "field \<Rightarrow> tile \<Rightarrow> tilePathFinder \<Rightarrow> bool" where
  "pathFinderOK f t p \<longleftrightarrow>
     tileTyp p = Some t \<and> assertLegit f p \<and> ty (state p) \<le> 127
     \<and> current p = windowAt f (ty (state p)) \<and> isValid t p"

section \<open>Rotation as the specification words it\<close>

text \<open>
  The unkicked candidate first, then the kick offsets of the table row up to its
  zero sentinel, in table order; the first candidate that is valid against the
  field wins and a kicked one carries the wall-kick flag.
\<close>

definition kickOffsets :: "tile \<Rightarrow> nat \<Rightarrow> nat \<Rightarrow> 8 word list" where
  "kickOffsets t srcDir dstDir =
     takeWhile (\<lambda>v. v \<noteq> 0) (take maxNumRotations (rotateTable t ! srcDir ! dstDir))"

definition plainCandidate :: "tilePathFinder \<Rightarrow> nat \<Rightarrow> tilePathFinder" where
  "plainCandidate pfd targetDir =
     \<lparr>tileTyp = tileTyp pfd, state = (state pfd)\<lparr>dir := targetDir\<rparr>, version = 0,
      current = current pfd, previousWallKick = False\<rparr>"

definition kickCandidate :: "field \<Rightarrow> tilePathFinder \<Rightarrow> nat \<Rightarrow> 8 word \<Rightarrow> tilePathFinder" where
  "kickCandidate f pfd targetDir v =
     (let newX = i8 (tx (state pfd) + coordX v); newY = i8 (ty (state pfd) + coordY v)
      in \<lparr>tileTyp = tileTyp pfd, state = \<lparr>dir = targetDir, tx = newX, ty = newY\<rparr>, version = 0,
          current = windowAt f newY, previousWallKick = True\<rparr>)"

definition rotate_spec :: "field \<Rightarrow> tile \<Rightarrow> tilePathFinder \<Rightarrow> nat \<Rightarrow> bool \<times> tilePathFinder" where
  "rotate_spec f t pfd targetDir =
     (if isValid t (plainCandidate pfd targetDir)
      then (True, envalidate f (plainCandidate pfd targetDir))
      else case find (\<lambda>v. isValid t (kickCandidate f pfd targetDir v))
                  (kickOffsets t (dir (state pfd)) targetDir) of
             Some v \<Rightarrow> (True, envalidate f (kickCandidate f pfd targetDir v))
           | None \<Rightarrow> (False, nullPathFinder))"

section \<open>Predicates on generators and playgrounds\<close>

text \<open>
  The contract of \<open>std::shuffle\<close>: the array it leaves is a permutation of the
  array it was given, whatever the engine state.
\<close>

definition isShuffle :: "('r \<Rightarrow> 'a list \<Rightarrow> 'a list \<times> 'r) \<Rightarrow> bool" where
  "isShuffle shuffle \<longleftrightarrow> (\<forall>w xs. mset (fst (shuffle w xs)) = mset xs)"

text \<open>A shuffle without an engine, for the examples: it reverses the array.\<close>

definition noShuffle :: "unit \<Rightarrow> 'a list \<Rightarrow> 'a list \<times> unit" where
  "noShuffle w xs = (rev xs, w)"

text \<open>
  A permutator in a regular state over the working set \<open>S\<close>: \<open>numTiles\<close> is the
  size of the array, the cursor is inside it, the array holds the elements of \<open>S\<close>.
\<close>

definition bagOK :: "'a set \<Rightarrow> ('a, 'r) tilePermutator \<Rightarrow> bool" where
  "bagOK S g \<longleftrightarrow>
     numTiles g = length (series g) \<and> pointer g < length (series g) \<and> set (series g) = S"

text \<open>
  A generator that returns a tile, never \<open>nullptr\<close>, from every state in \<open>G\<close> and
  stays in \<open>G\<close>.
\<close>

definition supplies :: "('g \<Rightarrow> error + (tile option \<times> 'g)) \<Rightarrow> ('g \<Rightarrow> bool) \<Rightarrow> bool" where
  "supplies gen G \<longleftrightarrow> (\<forall>g. G g \<longrightarrow> (\<exists>t g'. gen g = Inr (Some t, g') \<and> G g'))"

text \<open>
  The invariant of a playground fed by such a generator: the preview ring holds
  no \<open>nullptr\<close> and the state is not \<open>exhausted\<close>.
\<close>

definition neverEmpty :: "('g \<Rightarrow> bool) \<Rightarrow> 'g playground \<Rightarrow> bool" where
  "neverEmpty G pg \<longleftrightarrow>
     G (generator pg) \<and> None \<notin> set (preview pg) \<and> numPreviews pg = length (preview pg)
     \<and> pgState pg \<noteq> exhausted"

text \<open>Two playgrounds with the same field, generator, preview ring, hold slot and state.\<close>

definition sameSupply :: "'g playground \<Rightarrow> 'g playground \<Rightarrow> bool" where
  "sameSupply pg pg' \<longleftrightarrow>
     generator pg' = generator pg \<and> preview pg' = preview pg
     \<and> numPreviews pg' = numPreviews pg \<and> previewCursor pg' = previewCursor pg
     \<and> swap pg' = swap pg \<and> swapEnabled pg' = swapEnabled pg
     \<and> pgField pg' = pgField pg \<and> pgState pg' = pgState pg"


section \<open>Concrete tiles, fields and path finders\<close>

text \<open>
  The T tetromino as the constructor builds it from \<open>createTetrominoTileData\<close> and
  from \<open>createTetrominoRotation\<close> on a zeroed array, and the field and positions of
  the repository's test \<open>Tile.TSpinMini\<close>: one grown row with a hole in column 0,
  the tile as spawned, moved one column right, dropped to rest and pushed to the
  left wall.
\<close>

definition zeroTable :: tileRotationTable where
  "zeroTable = (\<lambda>i j k. 0)"

definition tetrominoT :: tile where
  "tetrominoT =
     \<lparr>data = [[5, 5, 5, 5, 0, 0, 0, 0], [5, 5, 5, 5, 0, 0, 0, 0],
              [5, 5, 5, 5, 0, 0, 0, 0], [5, 5, 5, 5, 0, 0, 0, 0]],
      loc = [[33, 34, 35, 50, 0, 0, 0, 0], [18, 34, 35, 50, 0, 0, 0, 0],
             [18, 33, 34, 35, 0, 0, 0, 0], [18, 33, 34, 50, 0, 0, 0, 0]],
      tmin = [33, 18, 17, 17], tmax = [51, 51, 35, 50],
      compactTile = [4309647360, 4307554304, 14684160, 4301262848],
      rotateTable =
        [[[0, 0, 0, 0, 0, 0, 0, 0, 0, 0, 0, 0],
          [15, 31, 224, 239, 0, 0, 0, 0, 0, 0, 0, 0],
          [0, 0, 0, 0, 0, 0, 0, 0, 0, 0, 0, 0],
          [1, 17, 224, 225, 0, 0, 0, 0, 0, 0, 0, 0]],
         [[1, 241, 32, 33, 0, 0, 0, 0, 0, 0, 0, 0],
          [0, 0, 0, 0, 0, 0, 0, 0, 0, 0, 0, 0],
          [1, 241, 32, 33, 0, 0, 0, 0, 0, 0, 0, 0],
          [0, 0, 0, 0, 0, 0, 0, 0, 0, 0, 0, 0]],
         [[0, 0, 0, 0, 0, 0, 0, 0, 0, 0, 0, 0],
          [15, 31, 224, 239, 0, 0, 0, 0, 0, 0, 0, 0],
          [0, 0, 0, 0, 0, 0, 0, 0, 0, 0, 0, 0],
          [1, 17, 224, 225, 0, 0, 0, 0, 0, 0, 0, 0]],
         [[15, 255, 32, 47, 0, 0, 0, 0, 0, 0, 0, 0],
          [0, 0, 0, 0, 0, 0, 0, 0, 0, 0, 0, 0],
          [15, 255, 32, 47, 0, 0, 0, 0, 0, 0, 0, 0],
          [0, 0, 0, 0, 0, 0, 0, 0, 0, 0, 0, 0]]]\<rparr>"

definition exampleField :: field where
  "exampleField =
     \<lparr>compactFields = [1022], fieldRows = [[0, 1, 1, 1, 1, 1, 1, 1, 1, 1]], fversion = 2\<rparr>"

definition pathFinderAt :: "tile \<Rightarrow> nat \<Rightarrow> int \<Rightarrow> int \<Rightarrow> 64 word \<Rightarrow> 64 word \<Rightarrow> bool \<Rightarrow> tilePathFinder" where
  "pathFinderAt t d a b v c k =
     \<lparr>tileTyp = Some t, state = \<lparr>dir = d, tx = a, ty = b\<rparr>, version = v, current = c,
      previousWallKick = k\<rparr>"

definition spawnedT :: tilePathFinder where
  "spawnedT = pathFinderAt tetrominoT 0 2 17 2 0 False"

definition movedT :: tilePathFinder where
  "movedT = pathFinderAt tetrominoT 0 3 17 2 0 False"

definition droppedT :: tilePathFinder where
  "droppedT = pathFinderAt tetrominoT 0 2 (- 1) 2 1047551 False"

definition rotatedT :: tilePathFinder where
  "rotatedT = pathFinderAt tetrominoT 1 2 17 2 0 False"

definition leftT :: tilePathFinder where
  "leftT = pathFinderAt tetrominoT 0 (- 1) (- 1) 2 1047551 False"

definition kickedT :: tilePathFinder where
  "kickedT = pathFinderAt tetrominoT 1 (- 2) (- 1) 2 1047551 True"

text \<open>
  A field of twenty rows whose row 19 holds one block in column 4, where the T
  tetromino cannot spawn; and a field whose rows 2 to 7 are solid above two empty
  rows, with the T tetromino lying on the floor under that ceiling.
\<close>

definition blockedField :: field where
  "blockedField =
     \<lparr>compactFields = replicate 19 0 @ [16],
      fieldRows = replicate 19 (replicate 10 0) @ [[0, 0, 0, 0, 1, 0, 0, 0, 0, 0]],
      fversion = 3\<rparr>"

definition cavernField :: field where
  "cavernField =
     \<lparr>compactFields = [0, 0, 1023, 1023, 1023, 1023, 1023, 1023],
      fieldRows = [replicate 10 0, replicate 10 0, replicate 10 1, replicate 10 1,
                   replicate 10 1, replicate 10 1, replicate 10 1, replicate 10 1],
      fversion = 9\<rparr>"

definition cavernT :: tilePathFinder where
  "cavernT = pathFinderAt tetrominoT 0 2 (- 2) 9 1152920405096267775 False"


text \<open>The field \<open>exampleField\<close> after \<open>kickedT\<close> has been locked: one row cleared.\<close>

definition lockedField :: field where
  "lockedField =
     \<lparr>compactFields = [3, 1],
      fieldRows = [[5, 5, 0, 0, 0, 0, 0, 0, 0, 0], [5, 0, 0, 0, 0, 0, 0, 0, 0, 0]],
      fversion = 3\<rparr>"

text \<open>
  A permutator over the single tile \<open>tetrominoT\<close> with the reversing shuffle, and
  the playground with two previews built on it, after \<open>start\<close>.
\<close>

definition tBag :: "(tile option, unit) tilePermutator" where
  "tBag = \<lparr>series = [Some tetrominoT], numTiles = 1, pointer = 0, workData = ()\<rparr>"

definition startedGame :: "(tile option, unit) tilePermutator playground" where
  "startedGame =
     \<lparr>pgField = newField, generator = tBag, swap = None, swapEnabled = True,
      pgCurrent = pathFinderAt tetrominoT 0 2 17 1 0 False,
      pgShadow = pathFinderAt tetrominoT 0 2 (- 2) 1 1048575 False,
      numPreviews = 2, preview = [Some tetrominoT, Some tetrominoT], previewCursor = 1,
      pgState = inGame,
      events = [TileSpawn tetrominoT \<lparr>dir = 0, tx = 2, ty = 17\<rparr> \<lparr>dir = 0, tx = 2, ty = - 2\<rparr>]\<rparr>"

text \<open>
  The same playground as constructed, before \<open>start\<close>; after one \<open>swapTile\<close> from
  \<open>startedGame\<close>, with the T tetromino in the hold slot; and after a second
  \<open>swapTile\<close>.
\<close>

definition readyGame :: "(tile option, unit) tilePermutator playground" where
  "readyGame =
     \<lparr>pgField = newField, generator = tBag, swap = None, swapEnabled = True,
      pgCurrent = nullPathFinder, pgShadow = nullPathFinder,
      numPreviews = 2, preview = [Some tetrominoT, Some tetrominoT], previewCursor = 0,
      pgState = notStarted, events = []\<rparr>"

definition swappedGame :: "(tile option, unit) tilePermutator playground" where
  "swappedGame =
     startedGame
       \<lparr>swap := Some tetrominoT, previewCursor := 0,
        events :=
          [TileSpawn tetrominoT \<lparr>dir = 0, tx = 2, ty = 17\<rparr> \<lparr>dir = 0, tx = 2, ty = - 2\<rparr>,
           TileSwap tetrominoT \<lparr>dir = 0, tx = 2, ty = 17\<rparr> \<lparr>dir = 0, tx = 2, ty = - 2\<rparr>,
           TileSpawn tetrominoT \<lparr>dir = 0, tx = 2, ty = 17\<rparr> \<lparr>dir = 0, tx = 2, ty = - 2\<rparr>]\<rparr>"

definition swappedTwice :: "(tile option, unit) tilePermutator playground" where
  "swappedTwice =
     swappedGame
       \<lparr>swapEnabled := False,
        events :=
          [TileSpawn tetrominoT \<lparr>dir = 0, tx = 2, ty = 17\<rparr> \<lparr>dir = 0, tx = 2, ty = - 2\<rparr>,
           TileSwap tetrominoT \<lparr>dir = 0, tx = 2, ty = 17\<rparr> \<lparr>dir = 0, tx = 2, ty = - 2\<rparr>,
           TileSpawn tetrominoT \<lparr>dir = 0, tx = 2, ty = 17\<rparr> \<lparr>dir = 0, tx = 2, ty = - 2\<rparr>,
           TileSwap tetrominoT \<lparr>dir = 0, tx = 2, ty = 17\<rparr> \<lparr>dir = 0, tx = 2, ty = - 2\<rparr>,
           TileSpawn tetrominoT \<lparr>dir = 0, tx = 2, ty = 17\<rparr> \<lparr>dir = 0, tx = 2, ty = - 2\<rparr>]\<rparr>"

text \<open>
  A tile of four cells, the same bitmap in its four orientations: one cell in the
  lowest row of the frame, in column 0, and three cells in the row above, in
  columns 0 to 2. \<open>cornerTile\<close> is the tile that the constructor builds from it
  with an empty kick table; its bounding box is recorded as \<open>min = (1, 1)\<close>,
  \<open>max = (2, 1)\<close>. \<open>oneBlockField\<close> is the empty field after \<open>grow\<close> with a row
  that holds one block in column 0.
\<close>

definition cornerBitmap :: "8 word list list" where
  "cornerBitmap =
     [[0, 0, 0, 0, 0, 0],
      [0, 0, 0, 0, 0, 0],
      [0, 0, 0, 0, 0, 0],
      [0, 0, 0, 0, 0, 0],
      [1, 1, 1, 0, 0, 0],
      [1, 0, 0, 0, 0, 0]]"

definition cornerTile :: tile where
  "cornerTile =
     \<lparr>data = replicate 4 [1, 1, 1, 1, 0, 0, 0, 0],
      loc = replicate 4 [0, 16, 17, 18, 0, 0, 0, 0],
      tmin = [17, 17, 17, 17],
      tmax = [18, 18, 18, 18],
      compactTile = [7169, 7169, 7169, 7169],
      rotateTable = replicate 4 (replicate 4 (replicate 12 0))\<rparr>"

definition oneBlockField :: field where
  "oneBlockField =
     \<lparr>compactFields = [1], fieldRows = [[1, 0, 0, 0, 0, 0, 0, 0, 0, 0]], fversion = 2\<rparr>"

text \<open>
  The path finders of \<open>cornerTile\<close> on \<open>oneBlockField\<close>: as spawned, moved to the
  left wall, dropped to rest, and moved one column to the right again.
\<close>

definition cornerSpawned :: tilePathFinder where
  "cornerSpawned = pathFinderAt cornerTile 0 2 18 2 0 False"

definition cornerLeft :: tilePathFinder where
  "cornerLeft = pathFinderAt cornerTile 0 (- 1) 18 2 0 False"

definition cornerRest :: tilePathFinder where
  "cornerRest = pathFinderAt cornerTile 0 (- 1) 0 2 1 False"

definition cornerMoved :: tilePathFinder where
  "cornerMoved = pathFinderAt cornerTile 0 0 0 2 1 False"

text \<open>
  A rotation table whose 192 bytes all hold \<open>0x11\<close> before the call, as after
  \<open>memset(kick, 0x11, sizeof kick)\<close>.
\<close>

definition filledTable :: tileRotationTable where
  "filledTable = (\<lambda>i j k. 17)"
section \<open>Properties of the packed windows\<close>
lemma fieldMask_mask: "fieldMask = mask 10"
  by (simp add: fieldMask_def mask_eq_exp_minus_1)

lemma fullMask_mask: "fullMask = mask 60"
  by (simp add: fullMask_def mask_eq_exp_minus_1)

lemma solidRow_mask: "solidRow = mask 10"
  by (simp add: solidRow_def mask_eq_exp_minus_1)

lemma bit_fieldDown_low: "j < 10 \<Longrightarrow> bit (fieldDown c r) j \<longleftrightarrow> bit r j"
  by (auto simp add: fieldDown_def fieldMask_mask fullMask_mask bit_simps)

lemma bit_fieldDown_high: "bit (fieldDown c r) (i + 10) \<longleftrightarrow> i < 50 \<and> bit c i"
  by (auto simp add: fieldDown_def fieldMask_mask fullMask_mask bit_simps)

lemma bit_fieldUp_low: "j < 50 \<Longrightarrow> bit (fieldUp c r) j \<longleftrightarrow> bit c (j + 10)"
  by (auto simp add: fieldUp_def fieldMask_mask fullMask_mask bit_simps ac_simps)

lemma bit_fieldUp_high: "bit (fieldUp c r) (i + 50) \<longleftrightarrow> i < 10 \<and> bit r i"
  by (auto simp add: fieldUp_def fieldMask_mask fullMask_mask bit_simps ac_simps)

lemma bit_win:
  "n \<le> 6 \<Longrightarrow> bit (win f y n) j \<longleftrightarrow> j < 10 * n \<and> bit (compactRowAt f (y + int (j div 10))) (j mod 10)"
proof (induction n arbitrary: y j)
  case 0
  then show ?case by simp
next
  case (Suc n)
  show ?case
  proof (cases "j < 10")
    case True
    then show ?thesis by (simp add: bit_fieldDown_low)
  next
    case False
    then obtain i where i: "j = i + 10"
      by (metis add.commute le_Suc_ex not_less)
    have n: "n \<le> 6" "10 * n \<le> 50" using Suc.prems by simp_all
    have "bit (win f y (Suc n)) j \<longleftrightarrow> i < 50 \<and> bit (win f (y + 1) n) i"
      by (simp add: i bit_fieldDown_high)
    also have "\<dots> \<longleftrightarrow> i < 10 * n \<and> bit (compactRowAt f (y + 1 + int (i div 10))) (i mod 10)"
      using n by (auto simp add: Suc.IH)
    also have "y + 1 + int (i div 10) = y + int (j div 10)"
      by (simp add: i)
    finally show ?thesis
      by (simp add: i)
  qed
qed

lemma bit_windowAt:
  "bit (windowAt f y) j \<longleftrightarrow> j < 60 \<and> bit (compactRowAt f (y + int (j div 10))) (j mod 10)"
  by (simp add: windowAt_def bit_win)

lemma fieldDown_windowAt:
  "fieldDown (windowAt f y) (compactRowAt f (y - 1)) = windowAt f (y - 1)"
proof (rule bit_eqI)
  fix j
  show "bit (fieldDown (windowAt f y) (compactRowAt f (y - 1))) j = bit (windowAt f (y - 1)) j"
  proof (cases "j < 10")
    case True
    then show ?thesis by (simp add: bit_fieldDown_low bit_windowAt)
  next
    case False
    then obtain i where i: "j = i + 10"
      by (metis add.commute le_Suc_ex not_less)
    have d: "(i + 10) div 10 = i div 10 + 1" "(i + 10) mod 10 = i mod 10"
      by simp_all
    show ?thesis
      by (auto simp add: i d bit_fieldDown_high bit_windowAt)
  qed
qed

lemma fieldUp_windowAt:
  "fieldUp (windowAt f y) (ucast (compactRowAt f (y + 6))) = windowAt f (y + 1)"
proof (rule bit_eqI)
  fix j
  show "bit (fieldUp (windowAt f y) (ucast (compactRowAt f (y + 6)))) j = bit (windowAt f (y + 1)) j"
  proof (cases "j < 50")
    case True
    have d: "(j + 10) div 10 = j div 10 + 1" "(j + 10) mod 10 = j mod 10"
      by simp_all
    show ?thesis using True
      by (simp add: d bit_fieldUp_low bit_windowAt add.assoc)
  next
    case False
    then obtain i where i: "j = i + 50"
      by (metis add.commute le_Suc_ex not_less)
    show ?thesis
    proof (cases "i < 10")
      case True
      then have "(i + 50) div 10 = 5" "(i + 50) mod 10 = i" by presburger+
      then show ?thesis using True
        by (simp add: i bit_fieldUp_high bit_windowAt bit_simps ac_simps)
    next
      case False
      then show ?thesis by (simp add: i bit_fieldUp_high bit_windowAt)
    qed
  qed
qed

lemma cell_bound:
  assumes "i < (60::nat)" and "int (i mod 10) + x \<le> 9"
  shows "int i + x < 60"
proof -
  have "i div 10 \<le> 5" using assms(1) by simp
  moreover have "i = 10 * (i div 10) + i mod 10" by simp
  ultimately show ?thesis using assms(2) by linarith
qed

lemma cell_low:
  assumes "minx \<le> int (i mod 10)" and "0 \<le> x + minx"
  shows "0 \<le> int i + x"
proof -
  have "i mod 10 \<le> i" by simp
  then show ?thesis using assms by linarith
qed

lemma cell_div:
  assumes "0 \<le> int (i mod 10) + x" and "int (i mod 10) + x \<le> 9"
  shows "nat (int i + x) div 10 = i div 10" and "int (nat (int i + x) mod 10) = int (i mod 10) + x"
proof -
  define c where "c = nat (int (i mod 10) + x)"
  have c: "c < 10" "int c = int (i mod 10) + x" using assms by (simp_all add: c_def)
  have "i = 10 * (i div 10) + i mod 10" by simp
  then have "int i + x = int (10 * (i div 10) + c)" using c(2) by linarith
  then have e: "nat (int i + x) = 10 * (i div 10) + c" by simp
  show "nat (int i + x) div 10 = i div 10" using c(1) by (simp add: e)
  show "int (nat (int i + x) mod 10) = int (i mod 10) + x" using c by (simp add: e)
qed

lemma bit_64_bound: "bit (w :: 64 word) i \<Longrightarrow> i < 64"
  using bit_imp_le_length [of w i] by simp

lemma tileShapeOK_maskInBox:
  assumes "tileShapeOK t d"
  shows "maskInBox (compactTile t ! d) (coordX (tmin t ! d)) (coordX (tmax t ! d))"
  unfolding maskInBox_def
proof (intro allI impI)
  fix i
  assume b: "bit (compactTile t ! d) i"
  then have "i \<in> set [0..<64]" using bit_64_bound by simp
  with assms b show "i < 60 \<and> coordX (tmin t ! d) \<le> int (i mod 10)
      \<and> int (i mod 10) \<le> coordX (tmax t ! d)"
    unfolding tileShapeOK_def Let_def list_all_iff by blast
qed

lemma collide_iff: "collide a b \<longleftrightarrow> (\<exists>j. bit a j \<and> bit b j)"
  by (auto simp add: collide_def bit_eq_iff bit_simps dest: bit_64_bound)

text \<open>The cells of a shifted mask, as long as the box stays left of column 10.\<close>

lemma bit_tileMove:
  assumes "maskInBox m minx maxx" and "x + maxx \<le> 9"
  shows "bit (tileMove m x) j \<longleftrightarrow> (\<exists>i. bit m i \<and> int j = int i + x)"
proof (cases "0 \<le> x")
  case True
  then have e: "tileMove m x = push_bit (nat x) m" by (simp add: tileMove_def)
  show ?thesis
  proof
    assume "bit (tileMove m x) j"
    then have "nat x \<le> j" "bit m (j - nat x)" by (simp_all add: e bit_simps)
    moreover from this True have "int j = int (j - nat x) + x" by simp
    ultimately show "\<exists>i. bit m i \<and> int j = int i + x" by blast
  next
    assume "\<exists>i. bit m i \<and> int j = int i + x"
    then obtain i where i: "bit m i" "int j = int i + x" by blast
    from assms(1) i(1) have "i < 60" "int (i mod 10) \<le> maxx" by (simp_all add: maskInBox_def)
    with assms(2) have "int i + x < 60" by (intro cell_bound) simp_all
    with i(2) have "j < 64" by simp
    moreover from i(2) True have "nat x \<le> j" "j - nat x = i" by simp_all
    ultimately show "bit (tileMove m x) j" using i(1) by (simp add: e bit_simps)
  qed
next
  case False
  then have e: "tileMove m x = drop_bit (nat (- x)) m" by (simp add: tileMove_def)
  show ?thesis
  proof
    assume "bit (tileMove m x) j"
    then have "bit m (nat (- x) + j)" by (simp add: e bit_simps)
    moreover from False have "int j = int (nat (- x) + j) + x" by simp
    ultimately show "\<exists>i. bit m i \<and> int j = int i + x" by blast
  next
    assume "\<exists>i. bit m i \<and> int j = int i + x"
    then obtain i where i: "bit m i" "int j = int i + x" by blast
    from i(2) False have "nat (- x) + j = i" by simp
    with i(1) show "bit (tileMove m x) j" by (simp add: e bit_simps)
  qed
qed

lemma tileMove_right:
  assumes "maskInBox m minx maxx" and "0 \<le> x + minx" and "x + maxx < 9"
  shows "tileMove (tileMove m x) 1 = tileMove m (x + 1)"
proof (rule bit_eqI)
  fix j
  have e: "tileMove (tileMove m x) 1 = push_bit (Suc 0) (tileMove m x)"
    by (simp add: tileMove_def)
  have l: "bit (tileMove (tileMove m x) 1) j \<longleftrightarrow> Suc 0 \<le> j \<and> j < 64 \<and> bit (tileMove m x) (j - Suc 0)"
    unfolding e bit_push_bit_iff by simp
  have a: "x + maxx \<le> 9" "x + 1 + maxx \<le> 9" using assms(3) by simp_all
  show "bit (tileMove (tileMove m x) 1) j = bit (tileMove m (x + 1)) j"
  proof
    assume "bit (tileMove (tileMove m x) 1) j"
    then have j: "Suc 0 \<le> j" "bit (tileMove m x) (j - Suc 0)" by (simp_all add: l)
    then obtain i where i: "bit m i" "int (j - Suc 0) = int i + x"
      using bit_tileMove [OF assms(1) a(1)] by blast
    from i(2) j(1) have "int j = int i + (x + 1)" by simp
    with i(1) show "bit (tileMove m (x + 1)) j"
      using bit_tileMove [OF assms(1) a(2)] by blast
  next
    assume "bit (tileMove m (x + 1)) j"
    then obtain i where i: "bit m i" "int j = int i + (x + 1)"
      using bit_tileMove [OF assms(1) a(2)] by blast
    from assms(1) i(1) have b: "i < 60" "minx \<le> int (i mod 10)" "int (i mod 10) \<le> maxx"
      by (simp_all add: maskInBox_def)
    from b(2) assms(2) have "0 \<le> int i + x" by (rule cell_low)
    with i(2) have j: "Suc 0 \<le> j" "int (j - Suc 0) = int i + x" by simp_all
    from b(1,3) a(2) have "int i + (x + 1) < 60" by (intro cell_bound) simp_all
    with i(2) have "j < 64" by simp
    moreover from i(1) j(2) have "bit (tileMove m x) (j - Suc 0)"
      using bit_tileMove [OF assms(1) a(1)] by blast
    ultimately show "bit (tileMove (tileMove m x) 1) j" using j(1) by (simp add: l)
  qed
qed

lemma tileMove_left:
  assumes "maskInBox m minx maxx" and "x + maxx \<le> 9"
  shows "tileMove (tileMove m x) (- 1) = tileMove m (x - 1)"
proof (rule bit_eqI)
  fix j
  have e: "tileMove (tileMove m x) (- 1) = drop_bit (Suc 0) (tileMove m x)"
    by (simp add: tileMove_def)
  have l: "bit (tileMove (tileMove m x) (- 1)) j \<longleftrightarrow> bit (tileMove m x) (Suc j)"
    unfolding e bit_drop_bit_eq by simp
  have a: "x - 1 + maxx \<le> 9" using assms(2) by simp
  have "bit (tileMove m x) (Suc j) \<longleftrightarrow> (\<exists>i. bit m i \<and> int (Suc j) = int i + x)"
    by (rule bit_tileMove [OF assms])
  also have "\<dots> \<longleftrightarrow> (\<exists>i. bit m i \<and> int j = int i + (x - 1))"
    by auto
  also have "\<dots> \<longleftrightarrow> bit (tileMove m (x - 1)) j"
    by (rule bit_tileMove [OF assms(1) a, symmetric])
  finally show "bit (tileMove (tileMove m x) (- 1)) j = bit (tileMove m (x - 1)) j"
    by (simp only: l)
qed

declare moveRight.simps [simp del] moveLeft.simps [simp del]
declare shiftUp.simps [simp del] shiftDown.simps [simp del]

lemma spawn_window:
  "foldl (\<lambda>c i. fieldDown c (compactRowAt f (y + i - 1))) 0 [6, 5, 4, 3, 2, 1] = windowAt f y"
  by (simp add: windowAt_def eval_nat_numeral add.commute)

lemma moveRight_ok:
  "maskInBox m minx maxx \<Longrightarrow> tile = tileMove m x \<Longrightarrow> 0 \<le> x + minx \<Longrightarrow> x + maxx \<le> 9
   \<Longrightarrow> \<not> collide cur tile
   \<Longrightarrow> x \<le> moveRight cur maxx x tile n \<and> moveRight cur maxx x tile n + maxx \<le> 9
       \<and> \<not> collide cur (tileMove m (moveRight cur maxx x tile n))"
proof (induction cur maxx x tile n rule: moveRight.induct)
  case (1 cur maxx xx tile n)
  show ?case
  proof (cases "xx + maxx < 9 \<and> n > 0")
    case guard: True
    then have step: "tileMove tile 1 = tileMove m (xx + 1)"
      using "1.prems" by (simp add: tileMove_right [of m minx maxx])
    show ?thesis
    proof (cases "collide cur (tileMove tile 1)")
      case True
      with guard have "moveRight cur maxx xx tile n = xx"
        by (subst moveRight.simps) simp
      with "1.prems" show ?thesis by simp
    next
      case False
      with guard have e: "moveRight cur maxx xx tile n
          = moveRight cur maxx (xx + 1) (tileMove tile 1) (n - 1)"
        by (subst moveRight.simps) simp
      have "xx + 1 \<le> moveRight cur maxx (xx + 1) (tileMove tile 1) (n - 1)
          \<and> moveRight cur maxx (xx + 1) (tileMove tile 1) (n - 1) + maxx \<le> 9
          \<and> \<not> collide cur (tileMove m (moveRight cur maxx (xx + 1) (tileMove tile 1) (n - 1)))"
        using guard False step "1.prems" by (intro "1.IH") simp_all
      then show ?thesis by (simp add: e)
    qed
  next
    case False
    then have "moveRight cur maxx xx tile n = xx"
      by (subst moveRight.simps) auto
    with "1.prems" show ?thesis by simp
  qed
qed

lemma moveLeft_ok:
  "maskInBox m minx maxx \<Longrightarrow> tile = tileMove m x \<Longrightarrow> 0 \<le> x + minx \<Longrightarrow> x + maxx \<le> 9
   \<Longrightarrow> \<not> collide cur tile
   \<Longrightarrow> moveLeft cur minx x tile n \<le> x \<and> 0 \<le> moveLeft cur minx x tile n + minx
       \<and> \<not> collide cur (tileMove m (moveLeft cur minx x tile n))"
proof (induction cur minx x tile n rule: moveLeft.induct)
  case (1 cur minx xx tile n)
  show ?case
  proof (cases "xx + minx > 0 \<and> n < 0")
    case guard: True
    have step: "tileMove tile (- 1) = tileMove m (xx - 1)"
      using "1.prems" by (simp add: tileMove_left [of m minx maxx])
    show ?thesis
    proof (cases "collide cur (tileMove tile (- 1))")
      case True
      with guard have "moveLeft cur minx xx tile n = xx"
        by (subst moveLeft.simps) simp
      with "1.prems" show ?thesis by simp
    next
      case False
      with guard have e: "moveLeft cur minx xx tile n
          = moveLeft cur minx (xx - 1) (tileMove tile (- 1)) (n + 1)"
        by (subst moveLeft.simps) simp
      have "moveLeft cur minx (xx - 1) (tileMove tile (- 1)) (n + 1) \<le> xx - 1
          \<and> 0 \<le> moveLeft cur minx (xx - 1) (tileMove tile (- 1)) (n + 1) + minx
          \<and> \<not> collide cur (tileMove m (moveLeft cur minx (xx - 1) (tileMove tile (- 1)) (n + 1)))"
        using guard False step "1.prems" by (intro "1.IH") simp_all
      then show ?thesis by (simp add: e)
    qed
  next
    case False
    then have "moveLeft cur minx xx tile n = xx"
      by (subst moveLeft.simps) auto
    with "1.prems" show ?thesis by simp
  qed
qed

lemma isValid_iff:
  "isValid t p \<longleftrightarrow>
     0 \<le> tx (state p) + coordX (tmin t ! dir (state p))
     \<and> tx (state p) + coordX (tmax t ! dir (state p)) \<le> 9
     \<and> 0 \<le> ty (state p) + coordY (tmax t ! dir (state p))
     \<and> \<not> collide (current p) (tileMove (compactTile t ! dir (state p)) (tx (state p)))"
  by (auto simp add: isValid_def Let_def)

lemma field_move_ok:
  assumes "tileShapeOK t (dir (state p))" and "pathFinderOK f t p"
    and "field_move f p n = Inr (True, r)"
  shows "pathFinderOK f t r \<and> version r = fversion f"
proof -
  let ?d = "dir (state p)"
  let ?m = "compactTile t ! ?d"
  let ?x = "tx (state p)"
  have box: "maskInBox ?m (coordX (tmin t ! ?d)) (coordX (tmax t ! ?d))"
    using assms(1) by (rule tileShapeOK_maskInBox)
  have p: "tileTyp p = Some t" "assertLegit f p" "ty (state p) \<le> 127"
    "current p = windowAt f (ty (state p))" "isValid t p"
    using assms(2) by (simp_all add: pathFinderOK_def)
  from p(5) have v: "0 \<le> ?x + coordX (tmin t ! ?d)" "?x + coordX (tmax t ! ?d) \<le> 9"
    "0 \<le> ty (state p) + coordY (tmax t ! ?d)" "\<not> collide (current p) (tileMove ?m ?x)"
    by (simp_all add: isValid_iff)
  define xx where "xx = (if n > 0
      then moveRight (current p) (coordX (tmax t ! ?d)) ?x (tileMove ?m ?x) n
      else if n < 0
      then moveLeft (current p) (coordX (tmin t ! ?d)) ?x (tileMove ?m ?x) n
      else ?x)"
  have r: "r = envalidate f
      ((newPathFinder (tileTyp p) (state p))\<lparr>current := current p, state := (state p)\<lparr>tx := xx\<rparr>\<rparr>)"
    using assms(3) p(1,2)
    by (simp add: field_move_def Let_def xx_def split: if_splits)
  have "0 \<le> xx + coordX (tmin t ! ?d) \<and> xx + coordX (tmax t ! ?d) \<le> 9
      \<and> \<not> collide (current p) (tileMove ?m xx)"
  proof (cases "n > 0")
    case True
    then have "xx = moveRight (current p) (coordX (tmax t ! ?d)) ?x (tileMove ?m ?x) n"
      by (simp add: xx_def)
    with moveRight_ok [OF box refl v(1,2,4), of n] v(1) show ?thesis by simp
  next
    case False
    show ?thesis
    proof (cases "n < 0")
      case True
      then have "xx = moveLeft (current p) (coordX (tmin t ! ?d)) ?x (tileMove ?m ?x) n"
        by (simp add: xx_def)
      with moveLeft_ok [OF box refl v(1,2,4), of n] v(2) show ?thesis by simp
    next
      case False
      with \<open>\<not> n > 0\<close> have "xx = ?x" by (simp add: xx_def)
      with v show ?thesis by simp
    qed
  qed
  with p v(3) show ?thesis
    by (simp add: r pathFinderOK_def isValid_iff envalidate_def newPathFinder_def assertLegit_def)
qed

lemma tileShapeOK_top:
  assumes "tileShapeOK t d"
  shows "\<exists>i. bit (compactTile t ! d) i \<and> int (i div 10) = coordY (tmax t ! d)"
  using assms unfolding tileShapeOK_def Let_def list_ex_iff by blast

lemma tileShapeOK_bottom:
  assumes "tileShapeOK t d"
  shows "\<exists>i. bit (compactTile t ! d) i \<and> int (i div 10) = coordY (tmin t ! d)"
  using assms unfolding tileShapeOK_def Let_def list_ex_iff by blast

text \<open>A cell of the mask that lies below row 0 of the field hits the solid floor.\<close>

lemma floor_collides:
  assumes box: "maskInBox m minx maxx" and i: "bit m i"
    and x: "0 \<le> x + minx" "x + maxx \<le> 9" and y: "y + int (i div 10) < 0"
  shows "collide (windowAt f y) (tileMove m x)"
proof -
  from box i have b: "i < 60" "minx \<le> int (i mod 10)" "int (i mod 10) \<le> maxx"
    by (simp_all add: maskInBox_def)
  define j where "j = nat (int i + x)"
  have c: "0 \<le> int (i mod 10) + x" "int (i mod 10) + x \<le> 9"
    using b x by simp_all
  have "0 \<le> int i + x" using b(2) x(1) by (rule cell_low)
  then have "int j = int i + x" by (simp add: j_def)
  with i have 1: "bit (tileMove m x) j"
    using bit_tileMove [OF box x(2)] by blast
  have d: "j div 10 = i div 10" "int (j mod 10) = int (i mod 10) + x"
    unfolding j_def using c by (rule cell_div)+
  from b(1) c(2) have "int i + x < 60" by (rule cell_bound)
  then have "j < 60" by (simp add: j_def)
  moreover have "j mod 10 < 10" by simp
  ultimately have 2: "bit (windowAt f y) j"
    using y by (simp add: bit_windowAt d(1) compactRowAt_def solidRow_mask bit_simps)
  from 1 2 show ?thesis by (auto simp add: collide_iff)
qed

lemma dropLoop_ok:
  assumes box: "maskInBox m minx maxx"
    and top: "bit m i" "int (i div 10) = maxy"
    and x: "0 \<le> x + minx" "x + maxx \<le> 9"
  shows "current r = windowAt f (ty (state r)) \<Longrightarrow> ty (state r) \<le> 127
    \<Longrightarrow> dropLoop f (tileMove m x) r n = (r', left)
    \<Longrightarrow> left \<le> n \<and> current r' = windowAt f (ty (state r'))
        \<and> ty (state r') = ty (state r) - int (n - left)
        \<and> r' = r\<lparr>state := (state r)\<lparr>ty := ty (state r')\<rparr>, current := current r'\<rparr>
        \<and> (left = n \<longrightarrow> r' = r)
        \<and> (left < n \<longrightarrow> 0 \<le> ty (state r') + maxy \<and> \<not> collide (current r') (tileMove m x))"
proof (induction n arbitrary: r)
  case 0
  then show ?case by simp
next
  case (Suc n)
  let ?y = "ty (state r)"
  let ?cur = "fieldDown (current r) (compactRowAt f (?y - 1))"
  have cur: "?cur = windowAt f (?y - 1)"
    by (simp add: Suc.prems(1) fieldDown_windowAt)
  show ?case
  proof (cases "collide ?cur (tileMove m x)")
    case True
    with Suc.prems(3) have "r' = r" "left = Suc n" by (simp_all add: Let_def)
    with Suc.prems(1) show ?thesis by simp
  next
    case False
    have low: "0 \<le> ?y - 1 + maxy"
    proof (rule ccontr)
      assume "\<not> 0 \<le> ?y - 1 + maxy"
      then have "?y - 1 + int (i div 10) < 0" by (simp add: top(2))
      from floor_collides [OF box top(1) x this, of f] False cur show False by simp
    qed
    have "maxy \<le> 5"
    proof -
      from box top(1) have "i < 60" by (simp add: maskInBox_def)
      then have "i div 10 \<le> 5" by simp
      with top(2) show ?thesis by simp
    qed
    with low Suc.prems(2) have wrap: "i8 (?y - 1) = ?y - 1"
      by (simp add: i8_def)
    define r1 where "r1 = r\<lparr>state := (state r)\<lparr>ty := ?y - 1\<rparr>, current := ?cur\<rparr>"
    have step: "dropLoop f (tileMove m x) r1 n = (r', left)"
      using Suc.prems(3) False by (simp add: Let_def wrap r1_def)
    have r1: "current r1 = windowAt f (ty (state r1))" "ty (state r1) \<le> 127"
      "ty (state r1) = ?y - 1"
      using Suc.prems(2) cur by (simp_all add: r1_def)
    from Suc.IH [OF r1(1,2) step]
    have ih: "left \<le> n" "current r' = windowAt f (ty (state r'))"
      "ty (state r') = ty (state r1) - int (n - left)"
      "r' = r1\<lparr>state := (state r1)\<lparr>ty := ty (state r')\<rparr>, current := current r'\<rparr>"
      "left = n \<longrightarrow> r' = r1"
      "left < n \<longrightarrow> 0 \<le> ty (state r') + maxy \<and> \<not> collide (current r') (tileMove m x)"
      by blast+
    have last: "0 \<le> ty (state r') + maxy \<and> \<not> collide (current r') (tileMove m x)"
    proof (cases "left < n")
      case True
      with ih(6) show ?thesis by simp
    next
      case False
      with ih(1) have "left = n" by simp
      with ih(5) have "r' = r1" by simp
      with low \<open>\<not> collide ?cur (tileMove m x)\<close> show ?thesis by (simp add: r1_def)
    qed
    have "r' = r\<lparr>state := (state r)\<lparr>ty := ty (state r')\<rparr>, current := current r'\<rparr>"
      by (subst ih(4)) (simp add: r1_def)
    moreover have "left \<noteq> Suc n" using ih(1) by simp
    ultimately show ?thesis using ih(1,2,3) last r1(3) by (simp add: Suc_diff_le)
  qed
qed

lemma field_drop_ok:
  assumes "tileShapeOK t (dir (state p))" and "pathFinderOK f t p"
    and "field_drop f p n = Inr (True, r)"
  shows "pathFinderOK f t r \<and> version r = fversion f"
proof -
  let ?d = "dir (state p)"
  let ?m = "compactTile t ! ?d"
  let ?x = "tx (state p)"
  have box: "maskInBox ?m (coordX (tmin t ! ?d)) (coordX (tmax t ! ?d))"
    using assms(1) by (rule tileShapeOK_maskInBox)
  obtain i where top: "bit ?m i" "int (i div 10) = coordY (tmax t ! ?d)"
    using tileShapeOK_top [OF assms(1)] by blast
  have p: "tileTyp p = Some t" "assertLegit f p" "ty (state p) \<le> 127"
    "current p = windowAt f (ty (state p))" "isValid t p"
    using assms(2) by (simp_all add: pathFinderOK_def)
  from p(5) have v: "0 \<le> ?x + coordX (tmin t ! ?d)" "?x + coordX (tmax t ! ?d) \<le> 9"
    by (simp_all add: isValid_iff)
  define r0 where "r0 = (newPathFinder (tileTyp p) (state p))\<lparr>current := current p\<rparr>"
  obtain r' left where loop: "dropLoop f (tileMove ?m ?x) r0 n = (r', left)"
    by (cases "dropLoop f (tileMove ?m ?x) r0 n")
  have res: "left \<noteq> n" "r = envalidate f r'"
    using assms(3) p(1,2) loop
    by (simp_all add: field_drop_def Let_def r0_def split: if_splits)
  have r0: "current r0 = windowAt f (ty (state r0))" "ty (state r0) \<le> 127"
    using p(3,4) by (simp_all add: r0_def newPathFinder_def)
  from dropLoop_ok [OF box top v r0 loop] res(1) have "left < n"
    by simp
  with dropLoop_ok [OF box top v r0 loop]
  have l: "current r' = windowAt f (ty (state r'))"
    "ty (state r') = ty (state r0) - int (n - left)"
    "r' = r0\<lparr>state := (state r0)\<lparr>ty := ty (state r')\<rparr>, current := current r'\<rparr>"
    "0 \<le> ty (state r') + coordY (tmax t ! ?d)"
    "\<not> collide (current r') (tileMove ?m ?x)"
    by blast+
  have f: "tileTyp r' = Some t" "dir (state r') = ?d" "tx (state r') = ?x"
    by (subst l(3), simp add: r0_def newPathFinder_def p(1))+
  from l(2) r0(2) have "ty (state r') \<le> 127" by simp
  with l(1,4,5) f v show ?thesis
    by (simp add: res(2) pathFinderOK_def isValid_iff envalidate_def assertLegit_def)
qed

lemma shiftUp_window:
  "cur = windowAt f yy \<Longrightarrow> shiftUp f cur yy newY = (windowAt f (max yy newY), max yy newY)"
proof (induction f cur yy newY rule: shiftUp.induct)
  case (1 f cur yy newY)
  show ?case
  proof (cases "yy < newY")
    case True
    with "1.prems" have "fieldUp cur (ucast (compactRowAt f (yy + 6))) = windowAt f (yy + 1)"
      by (simp add: fieldUp_windowAt)
    from "1.IH" [OF True this]
    have "shiftUp f (fieldUp cur (ucast (compactRowAt f (yy + 6)))) (yy + 1) newY
        = (windowAt f newY, newY)"
      using True by (simp add: max_def)
    with True show ?thesis
      by (subst shiftUp.simps) (simp add: max_def)
  next
    case False
    with "1.prems" show ?thesis
      by (subst shiftUp.simps) (simp add: max_def)
  qed
qed

lemma shiftDown_window:
  "cur = windowAt f yy \<Longrightarrow> shiftDown f cur yy newY = (windowAt f (min yy newY), min yy newY)"
proof (induction f cur yy newY rule: shiftDown.induct)
  case (1 f cur yy newY)
  show ?case
  proof (cases "yy > newY")
    case True
    with "1.prems" have "fieldDown cur (compactRowAt f (yy - 1)) = windowAt f (yy - 1)"
      by (simp add: fieldDown_windowAt)
    moreover from True have "min (yy - 1) newY = newY"
      by simp
    ultimately have "shiftDown f (fieldDown cur (compactRowAt f (yy - 1))) (yy - 1) newY
        = (windowAt f newY, newY)"
      using "1.IH" [OF True] by simp
    with True show ?thesis
      by (subst shiftDown.simps) (simp add: min_def)
  next
    case False
    with "1.prems" show ?thesis
      by (subst shiftDown.simps) (simp add: min_def)
  qed
qed

lemma shift_window:
  assumes "cur = windowAt f yy"
  shows "(case shiftUp f cur yy newY of (cur1, y1) \<Rightarrow> shiftDown f cur1 y1 newY)
    = (windowAt f newY, newY)"
  by (simp add: shiftUp_window [OF assms] shiftDown_window max_def min_def)

lemma isValid_flag: "isValid t (p\<lparr>previousWallKick := b\<rparr>) = isValid t p"
  by (simp add: isValid_def)

lemma kickLoop_find:
  assumes "current result = windowAt f (ty (state result))"
    and "tileTyp result = tileTyp pfd" and "dir (state result) = targetDir"
    and "version result = 0" and "previousWallKick result = False"
  shows "kickLoop f t (state pfd) result vs =
     map_option (\<lambda>v. envalidate f (kickCandidate f pfd targetDir v))
       (find (\<lambda>v. isValid t (kickCandidate f pfd targetDir v)) (takeWhile (\<lambda>v. v \<noteq> 0) vs))"
  using assms
proof (induction vs arbitrary: result)
  case Nil
  then show ?case by simp
next
  case (Cons v vs)
  show ?case
  proof (cases "v = 0")
    case True
    then show ?thesis by simp
  next
    case False
    let ?newX = "i8 (tx (state pfd) + coordX v)"
    let ?newY = "i8 (ty (state pfd) + coordY v)"
    let ?top = "max (ty (state result)) ?newY"
    define result' where "result' =
      result\<lparr>state := (state result)\<lparr>tx := ?newX, ty := ?newY\<rparr>, current := windowAt f ?newY\<rparr>"
    have up: "shiftUp f (current result) (ty (state result)) ?newY = (windowAt f ?top, ?top)"
      using Cons.prems(1) by (rule shiftUp_window)
    have "min ?top ?newY = ?newY"
      by simp
    then have down: "shiftDown f (windowAt f ?top) ?top ?newY = (windowAt f ?newY, ?newY)"
      by (simp only: shiftDown_window [OF refl])
    have step: "kickLoop f t (state pfd) result (v # vs) =
        (if isValid t result'
         then Some (envalidate f (result'\<lparr>previousWallKick := True\<rparr>))
         else kickLoop f t (state pfd) result' vs)"
      using False by (simp add: Let_def up down result'_def)
    have cand: "result'\<lparr>previousWallKick := True\<rparr> = kickCandidate f pfd targetDir v"
      using Cons.prems
      by (cases result, cases "state result")
        (simp add: result'_def kickCandidate_def Let_def)
    have r': "current result' = windowAt f (ty (state result'))"
      "tileTyp result' = tileTyp pfd" "dir (state result') = targetDir"
      "version result' = 0" "previousWallKick result' = False"
      using Cons.prems by (simp_all add: result'_def)
    have v: "isValid t result' = isValid t (kickCandidate f pfd targetDir v)"
      using isValid_flag [where t = t and p = result' and b = True] by (simp add: cand)
    show ?thesis
      using False by (simp add: step cand v Cons.IH [OF r'] del: kickLoop.simps)
  qed
qed

lemma field_rotate_spec:
  assumes "assertLegit f p" and "tileTyp p = Some t"
    and "current p = windowAt f (ty (state p))"
  shows "field_rotate f p d = Inr (rotate_spec f t p d)"
proof -
  define result where "result =
    (newPathFinder (tileTyp p) (state p))\<lparr>state := (state p)\<lparr>dir := d\<rparr>, current := current p\<rparr>"
  have plain: "result = plainCandidate p d"
    by (simp add: result_def plainCandidate_def newPathFinder_def)
  have r: "current result = windowAt f (ty (state result))"
    "tileTyp result = tileTyp p" "dir (state result) = d"
    "version result = 0" "previousWallKick result = False"
    using assms(3) by (simp_all add: result_def newPathFinder_def)
  have e: "field_rotate f p d =
      (if isValid t result then Inr (True, envalidate f result)
       else case kickLoop f t (state p) result
                   (take maxNumRotations (rotateTable t ! dir (state p) ! d)) of
              Some r \<Rightarrow> Inr (True, r)
            | None \<Rightarrow> Inr (False, nullPathFinder))"
    using assms(1,2) by (simp add: field_rotate_def Let_def result_def)
  show ?thesis
  proof (cases "isValid t result")
    case True
    then show ?thesis
      by (simp add: e rotate_spec_def flip: plain)
  next
    case False
    then show ?thesis
      by (cases "find (\<lambda>v. isValid t (kickCandidate f p d v)) (kickOffsets t (dir (state p)) d)")
        (simp_all add: e rotate_spec_def kickLoop_find [OF r] flip: plain kickOffsets_def)
  qed
qed

lemma field_rotate_ok:
  assumes "pathFinderOK f t p" and "field_rotate f p d = Inr (True, r)"
  shows "pathFinderOK f t r \<and> version r = fversion f"
proof -
  have p: "tileTyp p = Some t" "assertLegit f p" "ty (state p) \<le> 127"
    "current p = windowAt f (ty (state p))"
    using assms(1) by (simp_all add: pathFinderOK_def)
  have i8: "i8 v \<le> 127" for v
    by (simp add: i8_def)
  from assms(2) have s: "rotate_spec f t p d = (True, r)"
    by (simp add: field_rotate_spec [OF p(2,1,4)])
  show ?thesis
  proof (cases "isValid t (plainCandidate p d)")
    case True
    with s have "r = envalidate f (plainCandidate p d)"
      by (simp add: rotate_spec_def)
    with True p show ?thesis
      by (simp add: pathFinderOK_def envalidate_def plainCandidate_def isValid_iff assertLegit_def)
  next
    case False
    with s obtain v where v: "find (\<lambda>v. isValid t (kickCandidate f p d v))
        (kickOffsets t (dir (state p)) d) = Some v" "r = envalidate f (kickCandidate f p d v)"
      by (auto simp add: rotate_spec_def split: option.splits)
    from v(1) have "isValid t (kickCandidate f p d v)"
      by (auto simp add: find_Some_iff)
    with v(2) p i8 show ?thesis
      by (simp add: pathFinderOK_def envalidate_def kickCandidate_def Let_def isValid_iff
          assertLegit_def)
  qed
qed

lemma field_spawn_ok:
  assumes "tileTyp p = Some t" and "ty (state p) \<le> 127"
    and "field_spawn f p = Inr (True, r)"
  shows "pathFinderOK f t r \<and> version r = fversion f \<and> state r = state p"
proof -
  have e: "field_spawn f p =
      (if \<not> isValid t (p\<lparr>current := windowAt f (ty (state p))\<rparr>)
       then Inr (False, p\<lparr>current := windowAt f (ty (state p))\<rparr>)
       else Inr (True, envalidate f (p\<lparr>current := windowAt f (ty (state p))\<rparr>)))"
    unfolding field_spawn_def spawn_window using assms(1) by (simp add: Let_def)
  from assms(3) have "isValid t (p\<lparr>current := windowAt f (ty (state p))\<rparr>)"
    and "r = envalidate f (p\<lparr>current := windowAt f (ty (state p))\<rparr>)"
    by (simp_all add: e split: if_splits)
  with assms(1,2) show ?thesis
    by (simp add: pathFinderOK_def envalidate_def isValid_iff assertLegit_def)
qed

section \<open>The concrete inputs and the errors of the operations\<close>

lemma tetrominoT_built:
  "mkTile (createTetrominoTileData TetT 0) (createTetrominoRotation zeroTable TetT) = Inr tetrominoT"
  by code_simp

lemma exampleField_grown:
  "field_grow newField [0, 1, 1, 1, 1, 1, 1, 1, 1, 1] = exampleField"
  by code_simp

lemma spawnedT_spawned:
  "field_spawn exampleField (typePathFinder tetrominoT) = Inr (True, spawnedT)"
  by code_simp

lemma placePixels_error: "placePixels st f ps = Inl e \<Longrightarrow> e = OutOfRange"
  by (induction ps arbitrary: f) (auto simp add: Let_def split: if_splits)

lemma eraseLoop_error: "eraseLoop sy js f c = Inl e \<Longrightarrow> e = OutOfRange"
  by (induction js arbitrary: f c) (auto simp add: Let_def split: if_splits)

lemma field_drop_error: "assertLegit f p \<Longrightarrow> field_drop f p n = Inl e \<Longrightarrow> e = NullTile"
  by (auto simp add: field_drop_def Let_def split: option.splits prod.splits if_splits)

lemma lockTile_error: "lockTile f t st = Inl e \<Longrightarrow> e = OutOfRange"
  unfolding lockTile_def Let_def
  by (auto split: sum.splits prod.splits dest: placePixels_error eraseLoop_error)

lemma field_lock_error:
  assumes "assertLegit f p" and "field_lock f p = Inl e"
  shows "e \<noteq> MismatchedVersion"
proof (cases "tileTyp p")
  case None
  with assms show ?thesis by (auto simp add: field_lock_def)
next
  case (Some t)
  show ?thesis
  proof (cases "field_drop f p 1")
    case (Inl e')
    with assms(1) have "e' = NullTile" by (rule field_drop_error)
    with assms Some Inl show ?thesis
      by (auto simp add: field_lock_def split: if_splits)
  next
    case (Inr pr)
    show ?thesis
    proof (cases "lockTile f t (state p)")
      case (Inl e')
      then have "e' = OutOfRange" by (rule lockTile_error)
      with assms Some Inr Inl show ?thesis
        by (auto simp add: field_lock_def split: if_splits prod.splits)
    next
      case r: (Inr res)
      with assms Some Inr show ?thesis
        by (auto simp add: field_lock_def split: if_splits prod.splits)
    qed
  qed
qed

text \<open>
  For a tile whose mask lies inside the bounding box that the constructor has
  recorded, \<open>move\<close>, \<open>drop\<close> and \<open>rotate\<close> keep a valid path finder valid.
\<close>

lemma boxed_tiles_keep_validity:
  assumes "tileShapeOK t (dir (state p))" and "pathFinderOK f t p"
  shows "(field_move f p n = Inr (True, r1) \<longrightarrow> pathFinderOK f t r1 \<and> version r1 = fversion f)
    \<and> (field_drop f p k = Inr (True, r2) \<longrightarrow> pathFinderOK f t r2 \<and> version r2 = fversion f)
    \<and> (field_rotate f p d = Inr (True, r3) \<longrightarrow> pathFinderOK f t r3 \<and> version r3 = fversion f)"
  using field_move_ok [OF assms] field_drop_ok [OF assms] field_rotate_ok [OF assms(2)]
  by blast

text \<open>
  On an array that holds zeros before the call, the table of the tetromino T has
  four kicks in each row between neighbouring orientations, the reverse rows
  being the negations of the forward rows.
\<close>

lemma zeroed_table_kicks:
  "map (\<lambda>(i, j). takeWhile (\<lambda>v. v \<noteq> 0) (map (createTetrominoRotation zeroTable TetT i j) [0..<12]))
     (List.product [0..<4] [0..<4])
   = [[], [15, 31, 224, 239], [], [1, 17, 224, 225],
      [1, 241, 32, 33], [], [1, 241, 32, 33], [],
      [], [15, 31, 224, 239], [], [1, 17, 224, 225],
      [15, 255, 32, 47], [], [15, 255, 32, 47], []]"
  by code_simp

section \<open>The loops of lock\<close>

declare growLoop.simps [simp del]

lemma nibble_range: "- 8 \<le> nibble v \<and> nibble v \<le> 7"
  unfolding nibble_def by presburger

lemma coord_range:
  "- 8 \<le> coordX v" "coordX v \<le> 7" "- 8 \<le> coordY v" "coordY v \<le> 7"
  using nibble_range [of "uint v"] nibble_range [of "uint v div 16"]
  by (simp_all add: coordX_def coordY_def)

lemma u8_nat: "0 \<le> v \<Longrightarrow> v < 256 \<Longrightarrow> u8 v = nat v"
  by (simp add: u8_def)

lemma growLoop_ok:
  "fieldOK f \<Longrightarrow>
     fieldOK (growLoop n f)
     \<and> length (fieldRows (growLoop n f)) = max (length (fieldRows f)) (Suc n)
     \<and> fversion (growLoop n f) = fversion f"
proof (induction n f rule: growLoop.induct)
  case (1 topRow f)
  show ?case
  proof (cases "topRow \<ge> length (fieldRows f)")
    case True
    let ?f = "f\<lparr>fieldRows := fieldRows f @ [emptyFieldRow], compactFields := compactFields f @ [0]\<rparr>"
    have "fieldOK ?f" using "1.prems" by (simp add: fieldOK_def)
    from "1.IH" [OF True this] True show ?thesis
      by (simp add: growLoop.simps [of topRow f] max_def)
  next
    case False
    with "1.prems" show ?thesis
      by (simp add: growLoop.simps [of topRow f] max_def)
  qed
qed

lemma placePixels_ok:
  assumes "\<forall>(v, l) \<in> set ps. v \<noteq> 0 \<longrightarrow>
      0 \<le> tx st + coordX l \<and> tx st + coordX l < 10
      \<and> 0 \<le> ty st + coordY l \<and> ty st + coordY l < int (length (fieldRows f))
      \<and> ty st + coordY l < 256"
    and "fieldOK f"
  shows "\<exists>f2. placePixels st f ps = Inr f2 \<and> fieldOK f2
    \<and> length (fieldRows f2) = length (fieldRows f) \<and> fversion f2 = fversion f"
  using assms
proof (induction ps arbitrary: f)
  case Nil
  then show ?case by simp
next
  case (Cons a ps)
  obtain v l where a: "a = (v, l)" by (cases a)
  show ?case
  proof (cases "v = 0")
    case True
    with Cons.prems a show ?thesis by simp
  next
    case False
    with Cons.prems(1) a have c: "0 \<le> tx st + coordX l" "tx st + coordX l < 10"
      "0 \<le> ty st + coordY l" "ty st + coordY l < int (length (fieldRows f))"
      "ty st + coordY l < 256"
      by simp_all
    let ?px = "nat (tx st + coordX l)"
    let ?py = "nat (ty st + coordY l)"
    have u: "u8 (tx st + coordX l) = ?px" "u8 (ty st + coordY l) = ?py"
      using c by (simp_all add: u8_nat)
    let ?f = "f\<lparr>fieldRows := (fieldRows f)[?py := (fieldRows f ! ?py)[?px := v]],
        compactFields := (compactFields f)[?py := compactFields f ! ?py OR push_bit ?px 1]\<rparr>"
    have r: "?py < length (fieldRows f)" "?py < length (compactFields f)" "?px < 10"
      using c Cons.prems(2) by (simp_all add: fieldOK_def)
    have step: "placePixels st f (a # ps) = placePixels st ?f ps"
      using False r by (simp add: a u Let_def)
    have "fieldOK ?f" "length (fieldRows ?f) = length (fieldRows f)"
      using Cons.prems(2) by (simp_all add: fieldOK_def)
    moreover from this Cons.prems(1)
    have "\<forall>(v, l) \<in> set ps. v \<noteq> 0 \<longrightarrow>
      0 \<le> tx st + coordX l \<and> tx st + coordX l < 10
      \<and> 0 \<le> ty st + coordY l \<and> ty st + coordY l < int (length (fieldRows ?f))
      \<and> ty st + coordY l < 256"
      by simp
    ultimately show ?thesis
      using Cons.IH [of ?f] by (simp add: step)
  qed
qed

lemma length_eraseAt: "n < length xs \<Longrightarrow> length (eraseAt n xs) = length xs - 1"
  by (simp add: eraseAt_def)

lemma eraseLoop_ok:
  "fieldOK f \<Longrightarrow> 0 \<le> sy + int j0 - int c
   \<Longrightarrow> sy + int j1 - int c \<le> int (length (compactFields f))
   \<Longrightarrow> sy + int j1 \<le> 255 \<Longrightarrow> c + (j1 - j0) \<le> 255 \<Longrightarrow> n = j1 - j0
   \<Longrightarrow> \<exists>f3 c'. eraseLoop sy [j0..<j1] f c = Inr (f3, c') \<and> fieldOK f3
         \<and> length (compactFields f3) + c' = length (compactFields f) + c
         \<and> fversion f3 = fversion f"
proof (induction n arbitrary: j0 f c)
  case 0
  then show ?case by simp
next
  case (Suc n)
  then have lt: "j0 < j1" by simp
  then have l: "[j0..<j1] = j0 # [Suc j0..<j1]" by (rule upt_conv_Cons)
  let ?row = "nat (sy + int j0 - int c)"
  have u: "u8 (sy + int j0 - int c) = ?row"
    using Suc.prems lt by (intro u8_nat) simp_all
  have r: "?row < length (compactFields f)" "?row < length (fieldRows f)"
    using Suc.prems lt by (simp_all add: fieldOK_def)
  show ?case
  proof (cases "compactFields f ! ?row = solidRow")
    case True
    let ?f = "f\<lparr>fieldRows := eraseAt ?row (fieldRows f),
        compactFields := eraseAt ?row (compactFields f)\<rparr>"
    have c1: "Suc c mod 256 = Suc c" using Suc.prems(5) lt by simp
    have step: "eraseLoop sy [j0..<j1] f c = eraseLoop sy [Suc j0..<j1] ?f (c + 1)"
      using True r by (simp add: l u Let_def c1)
    have f: "fieldOK ?f" "length (compactFields ?f) = length (compactFields f) - 1"
      "fversion ?f = fversion f"
      using r Suc.prems(1) by (simp_all add: fieldOK_def length_eraseAt)
    have "\<exists>f3 c'. eraseLoop sy [Suc j0..<j1] ?f (c + 1) = Inr (f3, c') \<and> fieldOK f3
         \<and> length (compactFields f3) + c' = length (compactFields ?f) + (c + 1)
         \<and> fversion f3 = fversion ?f"
      using Suc.prems lt r f by (intro Suc.IH) simp_all
    then obtain f3 c' where "eraseLoop sy [Suc j0..<j1] ?f (c + 1) = Inr (f3, c')" "fieldOK f3"
      "length (compactFields f3) + c' = length (compactFields ?f) + (c + 1)"
      "fversion f3 = fversion ?f"
      by blast
    moreover have "length (compactFields ?f) + (c + 1) = length (compactFields f) + c"
      using f(2) r(1) by simp
    ultimately show ?thesis
      unfolding step f(3) by (intro exI [of _ f3] exI [of _ c']) simp
  next
    case False
    then have step: "eraseLoop sy [j0..<j1] f c = eraseLoop sy [Suc j0..<j1] f c"
      using r by (simp add: l u Let_def)
    have "\<exists>f3 c'. eraseLoop sy [Suc j0..<j1] f c = Inr (f3, c') \<and> fieldOK f3
         \<and> length (compactFields f3) + c' = length (compactFields f) + c
         \<and> fversion f3 = fversion f"
      using Suc.prems lt by (intro Suc.IH) simp_all
    then show ?thesis by (simp add: step)
  qed
qed

lemma tileShapeOK_cell:
  assumes "tileShapeOK t d" and "bit (compactTile t ! d) i"
  shows "i < 60" "coordX (tmin t ! d) \<le> int (i mod 10)" "int (i mod 10) \<le> coordX (tmax t ! d)"
    "coordY (tmin t ! d) \<le> int (i div 10)" "int (i div 10) \<le> coordY (tmax t ! d)"
proof -
  from assms(2) have "i \<in> set [0..<64]" using bit_64_bound by simp
  with assms have "i < 60 \<and> coordX (tmin t ! d) \<le> int (i mod 10)
      \<and> int (i mod 10) \<le> coordX (tmax t ! d)
      \<and> coordY (tmin t ! d) \<le> int (i div 10) \<and> int (i div 10) \<le> coordY (tmax t ! d)"
    unfolding tileShapeOK_def Let_def list_all_iff by blast
  then show "i < 60" "coordX (tmin t ! d) \<le> int (i mod 10)"
    "int (i mod 10) \<le> coordX (tmax t ! d)"
    "coordY (tmin t ! d) \<le> int (i div 10)" "int (i div 10) \<le> coordY (tmax t ! d)"
    by blast+
qed

lemma to_size_t_nat: "0 \<le> v \<Longrightarrow> v < 2 ^ 64 \<Longrightarrow> to_size_t v = nat v"
  by (simp add: to_size_t_def)

lemma lockTile_ok:
  fixes st :: tileState
  defines "d \<equiv> dir st"
  assumes f: "fieldOK f" and shape: "tileShapeOK t d" and pixels: "tilePixelsOK t d"
    and x: "0 \<le> tx st + coordX (tmin t ! d)" "tx st + coordX (tmax t ! d) \<le> 9"
    and y: "0 \<le> ty st + coordY (tmax t ! d)" "ty st \<le> 127"
    and free: "\<not> collide (windowAt f (ty st)) (tileMove (compactTile t ! d) (tx st))"
  shows "\<exists>c f'. lockTile f t st = Inr (c, f') \<and> fieldOK f' \<and> fversion f' = fversion f + 1
    \<and> length (compactFields f') + c
        = max (length (compactFields f)) (nat (ty st + coordY (tmax t ! d)) + 1)"
proof -
  let ?m = "compactTile t ! d"
  let ?minx = "coordX (tmin t ! d)" and ?maxx = "coordX (tmax t ! d)"
  let ?miny = "coordY (tmin t ! d)" and ?maxy = "coordY (tmax t ! d)"
  have box: "maskInBox ?m ?minx ?maxx"
    using shape by (rule tileShapeOK_maskInBox)
  have nofloor: "0 \<le> ty st + int (i div 10)" if "bit ?m i" for i
  proof (rule ccontr)
    assume "\<not> 0 \<le> ty st + int (i div 10)"
    then have "ty st + int (i div 10) < 0" by simp
    from floor_collides [OF box that x this, of f] free show False by simp
  qed
  obtain ib where ib: "bit ?m ib" "int (ib div 10) = ?miny"
    using tileShapeOK_bottom [OF shape] by blast
  have miny: "0 \<le> ?miny" "?miny \<le> ?maxy" "0 \<le> ty st + ?miny"
    using pixels tileShapeOK_cell(5) [OF shape ib(1)] nofloor [OF ib(1)] ib(2)
    by (simp_all add: tilePixelsOK_def)
  have maxy: "?maxy \<le> 7" by (rule coord_range)
  let ?top = "nat (ty st + ?maxy)"
  have top: "to_size_t (ty st + ?maxy) = ?top"
    using y maxy by (intro to_size_t_nat) simp_all
  define f1 where "f1 = growLoop ?top f"
  have f1: "fieldOK f1" "length (fieldRows f1) = max (length (fieldRows f)) (Suc ?top)"
    "fversion f1 = fversion f"
    using growLoop_ok [OF f, of ?top] by (simp_all add: f1_def)
  let ?ps = "zip (take maxNumPixels (data t ! d)) (take maxNumPixels (loc t ! d))"
  have ps: "\<forall>(v, l) \<in> set ?ps. v \<noteq> 0 \<longrightarrow>
      0 \<le> tx st + coordX l \<and> tx st + coordX l < 10
      \<and> 0 \<le> ty st + coordY l \<and> ty st + coordY l < int (length (fieldRows f1))
      \<and> ty st + coordY l < 256"
  proof (intro ballI, clarify)
    fix v l
    assume in_ps: "(v, l) \<in> set ?ps" and "v \<noteq> 0"
    with pixels have c: "0 \<le> coordX l" "0 \<le> coordY l"
      "bit ?m (nat (coordX l) + 10 * nat (coordY l))"
      unfolding tilePixelsOK_def list_all_iff by auto
    define i where "i = nat (coordX l) + 10 * nat (coordY l)"
    have "coordX l \<le> 7" by (rule coord_range)
    with c(1) have "nat (coordX l) < 10" by simp
    then have i: "i mod 10 = nat (coordX l)" "i div 10 = nat (coordY l)"
      by (simp_all add: i_def)
    from c(3) have b: "bit ?m i" by (simp add: i_def)
    have "?minx \<le> coordX l" "coordX l \<le> ?maxx" "coordY l \<le> ?maxy"
      using tileShapeOK_cell(2,3,5) [OF shape b] c(1,2) by (simp_all add: i)
    moreover have "0 \<le> ty st + coordY l"
      using nofloor [OF b] c(2) by (simp add: i)
    moreover have "ty st + ?maxy < int (length (fieldRows f1))"
      using y(1) by (simp add: f1(2))
    ultimately show "0 \<le> tx st + coordX l \<and> tx st + coordX l < 10
      \<and> 0 \<le> ty st + coordY l \<and> ty st + coordY l < int (length (fieldRows f1))
      \<and> ty st + coordY l < 256"
      using x y(2) maxy by simp
  qed
  obtain f2 where f2: "placePixels st f1 ?ps = Inr f2" "fieldOK f2"
    "length (fieldRows f2) = length (fieldRows f1)" "fversion f2 = fversion f1"
    using placePixels_ok [OF ps f1(1)] by blast
  have j0: "u8 ?miny = nat ?miny"
    using miny(1) maxy miny(2) by (intro u8_nat) simp_all
  have len2: "length (compactFields f2) = max (length (compactFields f)) (Suc ?top)"
    using f2(2,3) f1(2) f by (simp add: fieldOK_def)
  have "\<exists>f3 c'. eraseLoop (ty st) [nat ?miny..<nat (?maxy + 1)] f2 0 = Inr (f3, c') \<and> fieldOK f3
         \<and> length (compactFields f3) + c' = length (compactFields f2) + 0
         \<and> fversion f3 = fversion f2"
    using f2(2) miny maxy y by (intro eraseLoop_ok [OF _ _ _ _ _ refl]) (simp_all add: len2)
  then obtain f3 c where f3: "eraseLoop (ty st) [nat ?miny..<nat (?maxy + 1)] f2 0 = Inr (f3, c)"
    "fieldOK f3" "length (compactFields f3) + c = length (compactFields f2)"
    "fversion f3 = fversion f2"
    by auto
  have "lockTile f t st = Inr (c, f3\<lparr>fversion := fversion f3 + 1\<rparr>)"
    unfolding lockTile_def Let_def
    by (simp add: top j0 f2(1) f3(1) flip: d_def f1_def)
  moreover have "fieldOK (f3\<lparr>fversion := fversion f3 + 1\<rparr>)"
    using f3(2) by (simp add: fieldOK_def)
  ultimately show ?thesis
    using f3(3,4) f2(4) f1(3) len2 by simp
qed

lemma field_drop_total:
  assumes "assertLegit f p" and "tileTyp p = Some t"
  shows "\<exists>b r. field_drop f p n = Inr (b, r)"
  using assms
  by (cases "dropLoop f (tileMove (compactTile t ! dir (state p)) (tx (state p)))
        ((newPathFinder (tileTyp p) (state p))\<lparr>current := current p\<rparr>) n")
    (auto simp add: field_drop_def Let_def)

text \<open>What the loops of \<open>lock\<close> do to the sizes, when they do not leave the vectors.\<close>

lemma growLoop_length:
  "length (fieldRows (growLoop n f)) = max (length (fieldRows f)) (Suc n)
   \<and> length (compactFields (growLoop n f)) + length (fieldRows f)
       = length (compactFields f) + length (fieldRows (growLoop n f))
   \<and> fversion (growLoop n f) = fversion f"
proof (induction n f rule: growLoop.induct)
  case (1 topRow f)
  show ?case
  proof (cases "topRow \<ge> length (fieldRows f)")
    case True
    from "1.IH" [OF True] True show ?thesis
      by (simp add: growLoop.simps [of topRow f] max_def)
  next
    case False
    then show ?thesis
      by (simp add: growLoop.simps [of topRow f] max_def)
  qed
qed

lemma placePixels_length:
  "placePixels st f ps = Inr f' \<Longrightarrow>
     length (fieldRows f') = length (fieldRows f)
     \<and> length (compactFields f') = length (compactFields f)
     \<and> fversion f' = fversion f"
proof (induction ps arbitrary: f)
  case Nil
  then show ?case by simp
next
  case (Cons a ps)
  obtain d l where a: "a = (d, l)" by (cases a)
  show ?case
  proof (cases "d = 0")
    case True
    with Cons.prems a show ?thesis by simp
  next
    case False
    let ?px = "u8 (tx st + coordX l)"
    let ?py = "u8 (ty st + coordY l)"
    let ?f = "f\<lparr>fieldRows := (fieldRows f)[?py := (fieldRows f ! ?py)[?px := d]],
               compactFields := (compactFields f)[?py := compactFields f ! ?py OR push_bit ?px 1]\<rparr>"
    from Cons.prems a False have "placePixels st ?f ps = Inr f'"
      by (simp add: Let_def split: if_splits)
    from Cons.IH [OF this] show ?thesis by simp
  qed
qed

lemma eraseLoop_length:
  "eraseLoop sy js f c = Inr (f', c') \<Longrightarrow> c + length js < 256 \<Longrightarrow>
     length (fieldRows f') + c' = length (fieldRows f) + c
     \<and> length (compactFields f') + c' = length (compactFields f) + c
     \<and> fversion f' = fversion f"
proof (induction js arbitrary: f c)
  case Nil
  then show ?case by simp
next
  case (Cons j js)
  let ?row = "u8 (sy + int j - int c)"
  from Cons.prems(1) have r: "?row < length (compactFields f)"
    by (simp add: Let_def split: if_splits)
  show ?case
  proof (cases "compactFields f ! ?row = solidRow")
    case True
    with Cons.prems(1) r have r2: "?row < length (fieldRows f)"
      by (simp add: Let_def split: if_splits)
    let ?f = "f\<lparr>fieldRows := eraseAt ?row (fieldRows f),
               compactFields := eraseAt ?row (compactFields f)\<rparr>"
    from Cons.prems(2) have m: "Suc c mod 256 = Suc c" by simp
    from Cons.prems(1) r r2 True have "eraseLoop sy js ?f (Suc c) = Inr (f', c')"
      by (simp add: Let_def m)
    from Cons.IH [OF this] Cons.prems(2) r r2 show ?thesis
      by (auto simp add: length_eraseAt)
  next
    case False
    with Cons.prems(1) r have "eraseLoop sy js f c = Inr (f', c')"
      by (simp add: Let_def)
    from Cons.IH [OF this] Cons.prems(2) show ?thesis by simp
  qed
qed

lemma lockTile_length:
  assumes "lockTile f t st = Inr (c, f')" and "0 \<le> ty st + coordY (tmax t ! dir st)"
    and "ty st \<le> 127"
  shows "fversion f' = fversion f + 1
    \<and> length (fieldRows f') + c
        = max (length (fieldRows f)) (nat (ty st + coordY (tmax t ! dir st)) + 1)
    \<and> length (compactFields f') + length (fieldRows f)
        = length (fieldRows f') + length (compactFields f)"
proof -
  let ?mx = "tmax t ! dir st"
  let ?mn = "tmin t ! dir st"
  let ?top = "ty st + coordY ?mx"
  have top: "to_size_t ?top = nat ?top"
    using assms(2,3) coord_range(4) [of ?mx] by (intro to_size_t_nat) simp_all
  let ?f1 = "growLoop (nat ?top) f"
  from assms(1) obtain f2 f3 where
    p: "placePixels st ?f1
          (zip (take maxNumPixels (data t ! dir st)) (take maxNumPixels (loc t ! dir st))) = Inr f2"
    and e: "eraseLoop (ty st) [u8 (coordY ?mn) ..< nat (coordY ?mx + 1)] f2 0 = Inr (f3, c)"
    and f': "f' = f3\<lparr>fversion := fversion f3 + 1\<rparr>"
    by (auto simp add: lockTile_def Let_def top split: sum.splits)
  have "length [u8 (coordY ?mn) ..< nat (coordY ?mx + 1)] \<le> 8"
    using coord_range(4) [of ?mx] by simp
  then have b: "0 + length [u8 (coordY ?mn) ..< nat (coordY ?mx + 1)] < 256" by simp
  note g = growLoop_length [of "nat ?top" f]
  note q = placePixels_length [OF p]
  note r = eraseLoop_length [OF e b]
  from g q r f' show ?thesis by simp
qed

text \<open>
  On a field whose two vectors agree, with a tile whose cells lie inside its
  recorded bounding box and a path finder whose window is the window of the
  field, \<open>lock\<close> stays inside the vectors and returns.
\<close>

lemma field_lock_returns:
  assumes "fieldOK f" and "tileShapeOK t (dir (state p))" and "tilePixelsOK t (dir (state p))"
    and "tileTyp p = Some t" and "assertLegit f p"
    and "current p = windowAt f (ty (state p))" and "ty (state p) \<le> 127"
  shows "\<exists>b c f'. field_lock f p = Inr (b, c, f')
    \<and> (b \<longleftrightarrow> isValid t p \<and> (\<exists>r. field_drop f p 1 = Inr (False, r)))
    \<and> (\<not> b \<longrightarrow> f' = f \<and> c = 0)
    \<and> (b \<longrightarrow> fversion f' = fversion f + 1
          \<and> length (compactFields f') + c
              = max (length (compactFields f))
                  (nat (ty (state p) + coordY (tmax t ! dir (state p))) + 1)
          \<and> length (fieldRows f') = length (compactFields f'))"
proof -
  obtain dropped r where drop: "field_drop f p 1 = Inr (dropped, r)"
    using field_drop_total [OF assms(5,4)] by blast
  show ?thesis
  proof (cases "isValid t p \<and> \<not> dropped")
    case False
    then have "field_lock f p = Inr (False, 0, f)"
      using assms(4,5) drop by (auto simp add: field_lock_def)
    with False drop show ?thesis by auto
  next
    case True
    then have v: "0 \<le> tx (state p) + coordX (tmin t ! dir (state p))"
      "tx (state p) + coordX (tmax t ! dir (state p)) \<le> 9"
      "0 \<le> ty (state p) + coordY (tmax t ! dir (state p))"
      "\<not> collide (windowAt f (ty (state p)))
          (tileMove (compactTile t ! dir (state p)) (tx (state p)))"
      using assms(6) by (simp_all add: isValid_iff)
    from lockTile_ok [OF assms(1,2,3) v(1,2,3) assms(7) v(4)]
    obtain c f' where l: "lockTile f t (state p) = Inr (c, f')" "fieldOK f'"
      "fversion f' = fversion f + 1"
      "length (compactFields f') + c = max (length (compactFields f))
          (nat (ty (state p) + coordY (tmax t ! dir (state p))) + 1)"
      by blast
    have "field_lock f p = Inr (True, c, f')"
      using True assms(4,5) drop l(1) by (simp add: field_lock_def)
    with True drop l(2,3,4) show ?thesis
      by (auto simp add: fieldOK_def)
  qed
qed

section \<open>The bag generator over its rounds\<close>

lemma isShuffle_noShuffle: "isShuffle noShuffle"
  by (simp add: isShuffle_def noShuffle_def)

lemma permutate_fields:
  "numTiles (permutate sh g) = numTiles g" "pointer (permutate sh g) = pointer g"
  by (simp_all add: permutate_def split: prod.splits)

lemma permutate_mset:
  assumes "isShuffle sh"
  shows "mset (series (permutate sh g)) = mset (series g)"
proof -
  have "series (permutate sh g) = fst (sh (workData g) (series g))"
    by (simp add: permutate_def split: prod.splits)
  with assms show ?thesis by (simp add: isShuffle_def)
qed

lemma permutate_length:
  assumes "isShuffle sh"
  shows "length (series (permutate sh g)) = length (series g)"
  using permutate_mset [OF assms, of g] by (metis size_mset)

lemma permutate_set:
  assumes "isShuffle sh"
  shows "set (series (permutate sh g)) = set (series g)"
  using permutate_mset [OF assms, of g] by (metis set_mset_mset)

text \<open>The rest of the current permutation, up to and including the reshuffle.\<close>

lemma generate_rest:
  assumes sh: "isShuffle sh"
  shows "numTiles g = length (series g) \<Longrightarrow> pointer g < length (series g)
    \<Longrightarrow> n = length (series g) - pointer g
    \<Longrightarrow> \<exists>g'. generateN (generate sh) n g = Inr (drop (pointer g) (series g), g')
          \<and> numTiles g' = length (series g') \<and> pointer g' = 0
          \<and> mset (series g') = mset (series g)"
proof (induction n arbitrary: g)
  case 0
  then show ?case by simp
next
  case (Suc n)
  let ?p = "pointer g"
  have d: "drop ?p (series g) = series g ! ?p # drop (Suc ?p) (series g)"
    using Suc.prems(2) by (simp add: Cons_nth_drop_Suc)
  show ?case
  proof (cases "n = 0")
    case True
    with Suc.prems have last: "Suc ?p = length (series g)" by simp
    let ?g = "permutate sh (g\<lparr>pointer := 0\<rparr>)"
    have "generate sh g = Inr (series g ! ?p, ?g)"
      using Suc.prems(1,2) last by (simp add: generate_def Let_def)
    moreover have "numTiles ?g = length (series ?g)" "pointer ?g = 0"
      "mset (series ?g) = mset (series g)"
      using Suc.prems(1) by (simp_all add: permutate_fields permutate_length [OF sh] permutate_mset [OF sh])
    ultimately show ?thesis
      using True last by (simp add: d)
  next
    case False
    with Suc.prems have more: "Suc ?p < length (series g)" by simp
    let ?g = "g\<lparr>pointer := Suc ?p\<rparr>"
    have g: "generate sh g = Inr (series g ! ?p, ?g)"
      using Suc.prems(1,2) more by (simp add: generate_def Let_def)
    have "\<exists>g'. generateN (generate sh) n ?g = Inr (drop (pointer ?g) (series ?g), g')
          \<and> numTiles g' = length (series g') \<and> pointer g' = 0
          \<and> mset (series g') = mset (series ?g)"
      using Suc.prems more by (intro Suc.IH) simp_all
    then show ?thesis
      by (auto simp add: g d)
  qed
qed

lemma generateN_add:
  "generateN gen (a + b) g =
     (case generateN gen a g of
        Inl e \<Rightarrow> Inl e
      | Inr (xs, g') \<Rightarrow>
          (case generateN gen b g' of
             Inl e \<Rightarrow> Inl e
           | Inr (ys, g'') \<Rightarrow> Inr (xs @ ys, g'')))"
  by (induction a arbitrary: g) (auto split: sum.splits prod.splits)

lemma generate_rounds:
  assumes sh: "isShuffle sh"
  shows "numTiles g = length (series g) \<Longrightarrow> pointer g = 0 \<Longrightarrow> series g \<noteq> []
    \<Longrightarrow> \<exists>xs g'. generateN (generate sh) (k * length (series g)) g = Inr (xs, g')
          \<and> length xs = k * length (series g)
          \<and> numTiles g' = length (series g') \<and> pointer g' = 0
          \<and> mset (series g') = mset (series g)"
proof (induction k)
  case 0
  then show ?case by simp
next
  case (Suc k)
  let ?n = "length (series g)"
  from Suc obtain xs g1 where r: "generateN (generate sh) (k * ?n) g = Inr (xs, g1)"
    "length xs = k * ?n" "numTiles g1 = length (series g1)" "pointer g1 = 0"
    "mset (series g1) = mset (series g)"
    by blast
  from r(5) have n1: "length (series g1) = ?n" by (metis size_mset)
  with Suc.prems(3) r(4) have "pointer g1 < length (series g1)" by simp
  from generate_rest [OF sh r(3) this refl]
  obtain g2 where g2: "generateN (generate sh) ?n g1 = Inr (series g1, g2)"
    "numTiles g2 = length (series g2)" "pointer g2 = 0" "mset (series g2) = mset (series g1)"
    by (auto simp add: r(4) n1)
  have "generateN (generate sh) (Suc k * ?n) g = Inr (xs @ series g1, g2)"
    using generateN_add [of "generate sh" "k * ?n" ?n g] by (simp add: r(1) g2(1) add.commute)
  with r(2,5) g2 n1 show ?case by simp
qed

lemma generate_member:
  assumes sh: "isShuffle sh" and g: "bagOK S g"
  shows "\<exists>a g'. generate sh g = Inr (a, g') \<and> a \<in> S \<and> bagOK S g'"
proof -
  from g have b: "numTiles g = length (series g)" "pointer g < length (series g)"
    "set (series g) = S"
    by (simp_all add: bagOK_def)
  let ?a = "series g ! pointer g"
  have a: "?a \<in> S" using b(2,3) nth_mem by blast
  show ?thesis
  proof (cases "pointer g + 1 \<ge> numTiles g")
    case True
    let ?g = "permutate sh (g\<lparr>pointer := 0\<rparr>)"
    have "generate sh g = Inr (?a, ?g)"
      using b(2) True by (simp add: generate_def Let_def)
    moreover have "series g \<noteq> []"
      using b(2) by auto
    then have "bagOK S ?g"
      using b by (simp add: bagOK_def permutate_fields permutate_length [OF sh]
          permutate_set [OF sh])
    ultimately show ?thesis using a by blast
  next
    case False
    let ?g = "g\<lparr>pointer := pointer g + 1\<rparr>"
    have "generate sh g = Inr (?a, ?g)"
      using b(2) False by (simp add: generate_def Let_def)
    moreover have "bagOK S ?g"
      using b False by (simp add: bagOK_def)
    ultimately show ?thesis using a by blast
  qed
qed

lemma bagOK_new:
  assumes "isShuffle sh" and "tiles \<noteq> []"
  shows "bagOK (set tiles) (newPermutator sh tiles engine)"
  using assms(2)
  by (simp add: bagOK_def newPermutator_def permutate_fields permutate_length [OF assms(1)]
      permutate_set [OF assms(1)])

lemma supplies_bag:
  assumes "isShuffle sh" and "None \<notin> S"
  shows "supplies (generate sh) (bagOK S)"
  unfolding supplies_def
proof (intro allI impI)
  fix g :: "(tile option, 'a) tilePermutator"
  assume "bagOK S g"
  from generate_member [OF assms(1) this]
  obtain a g' where a: "generate sh g = Inr (a, g')" "a \<in> S" "bagOK S g'" by blast
  with assms(2) obtain t where "a = Some t" by (cases a) auto
  with a show "\<exists>t g'. generate sh g = Inr (Some t, g') \<and> bagOK S g'" by blast
qed

lemma generateN_member:
  assumes sh: "isShuffle sh"
  shows "bagOK S g \<Longrightarrow> \<exists>rs g'. generateN (generate sh) n g = Inr (rs, g') \<and> set rs \<subseteq> S
    \<and> length rs = n \<and> bagOK S g'"
proof (induction n arbitrary: g)
  case 0
  then show ?case by simp
next
  case (Suc n)
  from generate_member [OF sh Suc.prems]
  obtain a g1 where a: "generate sh g = Inr (a, g1)" "a \<in> S" "bagOK S g1" by blast
  from Suc.IH [OF a(3)]
  obtain rs g2 where r: "generateN (generate sh) n g1 = Inr (rs, g2)" "set rs \<subseteq> S"
    "length rs = n" "bagOK S g2" by blast
  from a r show ?case by simp
qed

lemma generateN_supplies:
  assumes "supplies gen G"
  shows "G g \<Longrightarrow> \<exists>ts g'. generateN gen n g = Inr (ts, g') \<and> None \<notin> set ts
    \<and> length ts = n \<and> G g'"
proof (induction n arbitrary: g)
  case 0
  then show ?case by simp
next
  case (Suc n)
  from assms Suc.prems obtain t g1 where a: "gen g = Inr (Some t, g1)" "G g1"
    unfolding supplies_def by blast
  from Suc.IH [OF a(2)]
  obtain ts g2 where r: "generateN gen n g1 = Inr (ts, g2)" "None \<notin> set ts"
    "length ts = n" "G g2" by blast
  from a r show ?case by simp
qed

lemma spawnTile_frame:
  assumes "spawnTile pg t = Inr pg'"
  shows "generator pg' = generator pg" "preview pg' = preview pg"
    "numPreviews pg' = numPreviews pg" "previewCursor pg' = previewCursor pg"
    "swap pg' = swap pg" "swapEnabled pg' = swapEnabled pg" "pgField pg' = pgField pg"
    "pgState pg' = pgState pg \<or> pgState pg' = topOut"
    "tileTyp (pgCurrent pg') = Some t"
proof -
  obtain spawned cur where s: "field_spawn (pgField pg) (typePathFinder t) = Inr (spawned, cur)"
    using assms by (auto simp add: spawnTile_def split: sum.splits)
  have c: "tileTyp cur = Some t"
    using s by (auto simp add: field_spawn_def typePathFinder_def newPathFinder_def Let_def
        envalidate_def split: if_splits)
  show "generator pg' = generator pg" "preview pg' = preview pg"
    "numPreviews pg' = numPreviews pg" "previewCursor pg' = previewCursor pg"
    "swap pg' = swap pg" "swapEnabled pg' = swapEnabled pg" "pgField pg' = pgField pg"
    "pgState pg' = pgState pg \<or> pgState pg' = topOut"
    "tileTyp (pgCurrent pg') = Some t"
    using assms s c
    by (auto simp add: spawnTile_def dispatch_def Let_def typePathFinder_def newPathFinder_def
        split: if_splits sum.splits prod.splits)
qed

section \<open>The supply of the playground\<close>

lemma sameSupply_refl: "sameSupply pg pg"
  by (simp add: sameSupply_def)

lemma sameSupply_neverEmpty: "sameSupply pg pg' \<Longrightarrow> neverEmpty G pg \<Longrightarrow> neverEmpty G pg'"
  by (simp add: sameSupply_def neverEmpty_def)

lemma spawnNextTile_frame:
  assumes "spawnNextTile gen pg = Inr pg'"
  shows "swap pg' = swap pg" "swapEnabled pg' = swapEnabled pg" "pgField pg' = pgField pg"
proof -
  have "swap pg' = swap pg \<and> swapEnabled pg' = swapEnabled pg \<and> pgField pg' = pgField pg"
  proof (cases "preview pg ! previewCursor pg")
    case None
    with assms show ?thesis
      by (auto simp add: spawnNextTile_def dispatch_def split: if_splits)
  next
    case (Some t)
    with assms obtain pg1 where "spawnTile pg1 t = Inr pg'" "swap pg1 = swap pg"
      "swapEnabled pg1 = swapEnabled pg" "pgField pg1 = pgField pg"
      by (auto simp add: spawnNextTile_def Let_def split: if_splits sum.splits)
    with spawnTile_frame(5,6,7) [of pg1 t pg'] show ?thesis by simp
  qed
  then show "swap pg' = swap pg" "swapEnabled pg' = swapEnabled pg" "pgField pg' = pgField pg"
    by simp_all
qed

lemma spawnNextTile_head:
  assumes "spawnNextTile gen pg = Inr pg'"
  shows "case preview pg ! previewCursor pg of
      None \<Rightarrow> pgState pg' = exhausted
    | Some t \<Rightarrow> tileTyp (pgCurrent pg') = Some t"
proof (cases "preview pg ! previewCursor pg")
  case None
  with assms show ?thesis
    by (auto simp add: spawnNextTile_def dispatch_def split: if_splits)
next
  case (Some t)
  with assms obtain pg1 where "spawnTile pg1 t = Inr pg'"
    by (auto simp add: spawnNextTile_def Let_def split: if_splits sum.splits)
  with spawnTile_frame(9) [of pg1 t pg'] Some show ?thesis by simp
qed

lemma spawnNextTile_neverEmpty:
  assumes gen: "supplies gen G" and inv: "neverEmpty G pg"
    and run: "spawnNextTile gen pg = Inr pg'"
  shows "neverEmpty G pg'"
proof -
  from inv have i: "G (generator pg)" "None \<notin> set (preview pg)"
    "numPreviews pg = length (preview pg)" "pgState pg \<noteq> exhausted"
    by (simp_all add: neverEmpty_def)
  from run have c: "previewCursor pg < length (preview pg)"
    by (auto simp add: spawnNextTile_def split: if_splits)
  with i(2) obtain t where t: "preview pg ! previewCursor pg = Some t"
    by (metis nth_mem not_Some_eq)
  let ?previous = "if previewCursor pg = 0 then preview pg ! (numPreviews pg - 1)
      else preview pg ! (previewCursor pg - 1)"
  have "?previous \<in> set (preview pg)"
    using c i(3) by (auto intro: nth_mem)
  with i(2) have p: "?previous \<noteq> None" by metis
  from gen i(1) obtain n g' where g: "gen (generator pg) = Inr (Some n, g')" "G g'"
    unfolding supplies_def by blast
  let ?pg1 = "pg\<lparr>generator := g',
      preview := (preview pg)[previewCursor pg := Some n],
      previewCursor := (if previewCursor pg + 1 \<ge> numPreviews pg then 0
                        else previewCursor pg + 1)\<rparr>"
  have s: "spawnTile ?pg1 t = Inr pg'"
    using run c t p g(1) by (simp add: spawnNextTile_def Let_def)
  have "None \<notin> set ((preview pg)[previewCursor pg := Some n])"
    using i(2) by (metis insert_iff not_Some_eq set_update_subset_insert subsetD)
  with spawnTile_frame [OF s] i g(2) show ?thesis
    by (auto simp add: neverEmpty_def)
qed



lemma tileMoved_frame: "tileMoved pg pfd = Inr pg' \<Longrightarrow> sameSupply pg pg'"
  by (auto simp add: tileMoved_def sameSupply_def dispatch_def Let_def
      split: sum.splits prod.splits option.splits)

lemma playground_move_frame: "playground_move pg n = Inr (b, pg') \<Longrightarrow> sameSupply pg pg'"
  by (auto simp add: playground_move_def sameSupply_refl
      split: if_splits sum.splits prod.splits dest: tileMoved_frame)

lemma playground_drop_frame: "playground_drop pg n = Inr (b, pg') \<Longrightarrow> sameSupply pg pg'"
  by (auto simp add: playground_drop_def sameSupply_refl
      split: if_splits sum.splits prod.splits dest: tileMoved_frame)

lemma playground_rotate_frame: "playground_rotate pg d = Inr (b, pg') \<Longrightarrow> sameSupply pg pg'"
  by (auto simp add: playground_rotate_def sameSupply_refl
      split: if_splits sum.splits prod.splits dest: tileMoved_frame)

lemma playground_turn_frame:
  "playground_rotateCW pg = Inr (b, pg') \<Longrightarrow> sameSupply pg pg'"
  "playground_rotateCCW pg = Inr (b, pg') \<Longrightarrow> sameSupply pg pg'"
  "playground_halfTurn pg = Inr (b, pg') \<Longrightarrow> sameSupply pg pg'"
  by (auto simp add: playground_rotateCW_def playground_rotateCCW_def playground_halfTurn_def
      sameSupply_refl split: if_splits dest: playground_rotate_frame)



lemma complete_neverEmpty: "neverEmpty G pg \<Longrightarrow> neverEmpty G (complete pg)"
  by (simp add: complete_def neverEmpty_def dispatch_def)

lemma start_neverEmpty:
  assumes "supplies gen G" and "neverEmpty G pg" and "start gen pg = Inr pg'"
  shows "neverEmpty G pg'"
proof (cases "pgState pg \<noteq> notStarted")
  case True
  with assms(2,3) show ?thesis by (simp add: start_def)
next
  case False
  with assms(3) have "spawnNextTile gen (pg\<lparr>pgState := inGame\<rparr>) = Inr pg'"
    by (simp add: start_def)
  moreover have "neverEmpty G (pg\<lparr>pgState := inGame\<rparr>)"
    using assms(2) by (simp add: neverEmpty_def)
  ultimately show ?thesis
    using assms(1) spawnNextTile_neverEmpty by blast
qed



lemma hardDrop_effect:
  assumes "hardDrop gen pg = Inr (b, pg')" and "isInGame pg"
  obtains pg3 where "generator pg3 = generator pg" "preview pg3 = preview pg"
    "numPreviews pg3 = numPreviews pg" "previewCursor pg3 = previewCursor pg"
    "pgState pg3 = inGame" "swapEnabled pg3" "spawnNextTile gen pg3 = Inr pg'"
proof -
  obtain dropped pg1 where d: "playground_drop pg 20 = Inr (dropped, pg1)"
    using assms by (auto simp add: hardDrop_def split: sum.splits)
  then have s1: "sameSupply pg pg1" by (rule playground_drop_frame)
  obtain t where t: "tileTyp (pgCurrent pg1) = Some t"
    using assms d by (auto simp add: hardDrop_def split: option.splits)
  let ?location = "state (pgCurrent pg1)"
  let ?pg2 = "dispatch (TileBeforeLock t ?location) pg1"
  obtain locked clear f' where l: "field_lock (pgField ?pg2) (pgCurrent ?pg2) = Inr (locked, clear, f')"
    using assms d t by (auto simp add: hardDrop_def Let_def split: sum.splits)
  let ?pg3 = "dispatch (TileLock t ?location clear)
      (?pg2\<lparr>pgField := f', pgCurrent := nullPathFinder, pgShadow := nullPathFinder,
         swapEnabled := True\<rparr>)"
  have g: "isInGame ?pg3"
    using s1 assms(2) by (simp add: isInGame_def dispatch_def sameSupply_def)
  have n: "spawnNextTile gen ?pg3 = Inr pg'"
    using assms d t l g by (auto simp add: hardDrop_def Let_def split: sum.splits)
  have p: "generator ?pg3 = generator pg" "preview ?pg3 = preview pg"
    "numPreviews ?pg3 = numPreviews pg" "previewCursor ?pg3 = previewCursor pg"
    "pgState ?pg3 = inGame" "swapEnabled ?pg3"
    using s1 assms(2) by (simp_all add: isInGame_def dispatch_def sameSupply_def)
  show ?thesis
    by (rule that [OF p n])
qed

lemma hardDrop_neverEmpty:
  assumes "supplies gen G" and "neverEmpty G pg" and "hardDrop gen pg = Inr (b, pg')"
  shows "neverEmpty G pg'"
proof (cases "isInGame pg")
  case False
  with assms(2,3) show ?thesis by (simp add: hardDrop_def)
next
  case True
  from hardDrop_effect [OF assms(3) True] obtain pg3 where
    p: "generator pg3 = generator pg" "preview pg3 = preview pg"
    "numPreviews pg3 = numPreviews pg" "pgState pg3 = inGame"
    "spawnNextTile gen pg3 = Inr pg'"
    by blast
  then have "neverEmpty G pg3"
    using assms(2) by (simp add: neverEmpty_def)
  with assms(1) p(5) show ?thesis
    using spawnNextTile_neverEmpty by blast
qed



lemma swapTile_unfold:
  assumes "isInGame pg" and "swapEnabled pg" and "tileTyp (pgCurrent pg) = Some t"
  shows "swapTile gen pg =
    (case (case swap pg of
             None \<Rightarrow> spawnNextTile gen
               (dispatch (TileSwap t (state (pgCurrent pg)) (state (pgShadow pg)))
                 (pg\<lparr>pgCurrent := nullPathFinder, pgShadow := nullPathFinder,
                     swap := Some t, swapEnabled := (swap pg = None)\<rparr>))
           | Some held \<Rightarrow> spawnTile
               (dispatch (TileSwap t (state (pgCurrent pg)) (state (pgShadow pg)))
                 (pg\<lparr>pgCurrent := nullPathFinder, pgShadow := nullPathFinder,
                     swap := Some t, swapEnabled := (swap pg = None)\<rparr>)) held) of
       Inl e \<Rightarrow> Inl e
     | Inr pg2 \<Rightarrow> Inr (True, pg2))"
  using assms by (simp add: swapTile_def Let_def)

lemma swapTile_rejected:
  assumes "swapTile gen pg = Inr (False, pg')"
  shows "pg' = pg"
proof (cases "isInGame pg \<and> swapEnabled pg")
  case False
  then have "swapTile gen pg = Inr (False, pg)"
    by (auto simp add: swapTile_def)
  with assms show ?thesis by simp
next
  case True
  show ?thesis
  proof (cases "tileTyp (pgCurrent pg)")
    case None
    with True have "swapTile gen pg = Inl NullTile"
      by (simp add: swapTile_def)
    with assms show ?thesis by simp
  next
    case (Some t)
    with True have e: "swapTile gen pg = Inl (projl (swapTile gen pg))
        \<or> fst (projr (swapTile gen pg))"
      by (simp add: swapTile_unfold split: sum.splits)
    with assms show ?thesis by simp
  qed
qed

lemma swapTile_effect:
  assumes "swapTile gen pg = Inr (True, pg')"
  obtains t pg1 where "tileTyp (pgCurrent pg) = Some t"
    "generator pg1 = generator pg" "preview pg1 = preview pg"
    "numPreviews pg1 = numPreviews pg" "previewCursor pg1 = previewCursor pg"
    "pgState pg1 = inGame" "swap pg1 = Some t" "swapEnabled pg1 = (swap pg = None)"
    "case swap pg of None \<Rightarrow> spawnNextTile gen pg1 = Inr pg'
       | Some held \<Rightarrow> spawnTile pg1 held = Inr pg'"
proof -
  have g: "isInGame pg \<and> swapEnabled pg"
  proof (rule ccontr)
    assume "\<not> (isInGame pg \<and> swapEnabled pg)"
    then have "swapTile gen pg = Inr (False, pg)"
      by (auto simp add: swapTile_def)
    with assms show False by simp
  qed
  obtain t where t: "tileTyp (pgCurrent pg) = Some t"
  proof (cases "tileTyp (pgCurrent pg)")
    case None
    with g have "swapTile gen pg = Inl NullTile"
      by (simp add: swapTile_def)
    with assms show ?thesis by simp
  next
    case (Some t)
    then show ?thesis using that by blast
  qed
  let ?pg1 = "dispatch (TileSwap t (state (pgCurrent pg)) (state (pgShadow pg)))
      (pg\<lparr>pgCurrent := nullPathFinder, pgShadow := nullPathFinder,
          swap := Some t, swapEnabled := (swap pg = None)\<rparr>)"
  let ?next = "case swap pg of None \<Rightarrow> spawnNextTile gen ?pg1
      | Some held \<Rightarrow> spawnTile ?pg1 held"
  have e: "swapTile gen pg = (case ?next of Inl e \<Rightarrow> Inl e | Inr pg2 \<Rightarrow> Inr (True, pg2))"
    using g t by (simp add: swapTile_unfold)
  have "?next = Inr pg'"
    using assms unfolding e by (cases ?next) simp_all
  then have c: "case swap pg of None \<Rightarrow> spawnNextTile gen ?pg1 = Inr pg'
       | Some held \<Rightarrow> spawnTile ?pg1 held = Inr pg'"
    by (cases "swap pg") simp_all
  have p: "generator ?pg1 = generator pg" "preview ?pg1 = preview pg"
    "numPreviews ?pg1 = numPreviews pg" "previewCursor ?pg1 = previewCursor pg"
    "pgState ?pg1 = inGame" "swap ?pg1 = Some t" "swapEnabled ?pg1 = (swap pg = None)"
    using g by (simp_all add: dispatch_def isInGame_def)
  show ?thesis
    by (rule that [OF t p c])
qed

lemma swapTile_neverEmpty:
  assumes "supplies gen G" and "neverEmpty G pg" and "swapTile gen pg = Inr (b, pg')"
  shows "neverEmpty G pg'"
proof (cases b)
  case False
  with assms(3) have "swapTile gen pg = Inr (False, pg')" by simp
  then have "pg' = pg" by (rule swapTile_rejected)
  with assms(2) show ?thesis by simp
next
  case True
  with assms(3) have "swapTile gen pg = Inr (True, pg')" by simp
  from swapTile_effect [OF this] obtain t pg1 where
    p: "generator pg1 = generator pg" "preview pg1 = preview pg"
    "numPreviews pg1 = numPreviews pg" "pgState pg1 = inGame"
    "case swap pg of None \<Rightarrow> spawnNextTile gen pg1 = Inr pg'
       | Some held \<Rightarrow> spawnTile pg1 held = Inr pg'"
    by blast
  from p(1-4) assms(2) have n: "neverEmpty G pg1"
    by (simp add: neverEmpty_def)
  show ?thesis
  proof (cases "swap pg")
    case None
    with p(5) have "spawnNextTile gen pg1 = Inr pg'" by simp
    with assms(1) n show ?thesis
      by (rule spawnNextTile_neverEmpty)
  next
    case (Some held)
    with p(5) have "spawnTile pg1 held = Inr pg'" by simp
    from spawnTile_frame [OF this] n show ?thesis
      by (auto simp add: neverEmpty_def)
  qed
qed





lemma map_sum_snd_InrE:
  assumes "map_sum id snd x = Inr y"
  obtains b where "x = Inr (b, y)"
proof (cases x)
  case (Inl e)
  with assms show ?thesis by simp
next
  case (Inr p)
  with assms have "x = Inr (fst p, y)" by (cases p) simp
  then show ?thesis by (rule that)
qed

lemma step_neverEmpty:
  assumes "supplies gen G" and "neverEmpty G pg" and "step gen pg c = Inr pg'"
  shows "neverEmpty G pg'"
proof (cases c)
  case Start
  with assms(3) have "start gen pg = Inr pg'" by simp
  with assms(1,2) show ?thesis by (rule start_neverEmpty)
next
  case Complete
  with assms(3) have "pg' = complete pg" by simp
  with assms(2) show ?thesis by (simp add: complete_neverEmpty)
next
  case (Move n)
  with assms(3) have "map_sum id snd (playground_move pg n) = Inr pg'" by simp
  then obtain b where "playground_move pg n = Inr (b, pg')" by (rule map_sum_snd_InrE)
  then have "sameSupply pg pg'"
    by (rule playground_move_frame)
  then show ?thesis
    using assms(2) by (rule sameSupply_neverEmpty)
next
  case (Drop n)
  with assms(3) have "map_sum id snd (playground_drop pg n) = Inr pg'" by simp
  then obtain b where "playground_drop pg n = Inr (b, pg')" by (rule map_sum_snd_InrE)
  then have "sameSupply pg pg'"
    by (rule playground_drop_frame)
  then show ?thesis
    using assms(2) by (rule sameSupply_neverEmpty)
next
  case RotateCW
  with assms(3) have "map_sum id snd (playground_rotateCW pg) = Inr pg'" by simp
  then obtain b where "playground_rotateCW pg = Inr (b, pg')" by (rule map_sum_snd_InrE)
  then have "sameSupply pg pg'"
    by (rule playground_turn_frame(1))
  then show ?thesis
    using assms(2) by (rule sameSupply_neverEmpty)
next
  case RotateCCW
  with assms(3) have "map_sum id snd (playground_rotateCCW pg) = Inr pg'" by simp
  then obtain b where "playground_rotateCCW pg = Inr (b, pg')" by (rule map_sum_snd_InrE)
  then have "sameSupply pg pg'"
    by (rule playground_turn_frame(2))
  then show ?thesis
    using assms(2) by (rule sameSupply_neverEmpty)
next
  case HalfTurn
  with assms(3) have "map_sum id snd (playground_halfTurn pg) = Inr pg'" by simp
  then obtain b where "playground_halfTurn pg = Inr (b, pg')" by (rule map_sum_snd_InrE)
  then have "sameSupply pg pg'"
    by (rule playground_turn_frame(3))
  then show ?thesis
    using assms(2) by (rule sameSupply_neverEmpty)
next
  case HardDrop
  with assms(3) have "map_sum id snd (hardDrop gen pg) = Inr pg'" by simp
  then obtain b where "hardDrop gen pg = Inr (b, pg')" by (rule map_sum_snd_InrE)
  with assms(1,2) show ?thesis
    by (rule hardDrop_neverEmpty)
next
  case SwapTile
  with assms(3) have "map_sum id snd (swapTile gen pg) = Inr pg'" by simp
  then obtain b where "swapTile gen pg = Inr (b, pg')" by (rule map_sum_snd_InrE)
  with assms(1,2) show ?thesis
    by (rule swapTile_neverEmpty)
qed



lemma run_neverEmpty:
  assumes "supplies gen G"
  shows "neverEmpty G pg \<Longrightarrow> run gen pg cs = Inr pg' \<Longrightarrow> neverEmpty G pg'"
proof (induction cs arbitrary: pg)
  case Nil
  then show ?case by simp
next
  case (Cons c cs)
  from Cons.prems(2) obtain pg1 where s: "step gen pg c = Inr pg1" "run gen pg1 cs = Inr pg'"
    by (cases "step gen pg c") auto
  from step_neverEmpty [OF assms Cons.prems(1) s(1)] s(2) show ?case
    by (rule Cons.IH)
qed



lemma newPlayground_neverEmpty:
  assumes "supplies gen G" and "G g"
  shows "\<exists>pg. newPlayground gen g n = Inr pg \<and> neverEmpty G pg"
proof -
  from generateN_supplies [OF assms, of n]
  obtain ts g' where "generateN gen n g = Inr (ts, g')" "None \<notin> set ts" "length ts = n" "G g'"
    by blast
  then show ?thesis
    by (simp add: newPlayground_def neverEmpty_def)
qed

lemma tBag_new: "newPermutator noShuffle [Some tetrominoT] () = tBag"
  by code_simp

text \<open>The flag \<open>swapEnabled\<close> under the commands.\<close>

lemma step_keeps_swapEnabled:
  assumes "c \<noteq> HardDrop" and "c \<noteq> SwapTile" and "step gen pg' c = Inr q"
  shows "isSwapEnabled q = isSwapEnabled pg'"
proof (cases c)
  case Start
  with assms(3) have s: "start gen pg' = Inr q" by simp
  show ?thesis
  proof (cases "pgState pg' \<noteq> notStarted")
    case True
    with s show ?thesis by (simp add: start_def)
  next
    case False
    with s have "spawnNextTile gen (pg'\<lparr>pgState := inGame\<rparr>) = Inr q"
      by (simp add: start_def)
    from spawnNextTile_frame(2) [OF this] show ?thesis
      by (simp add: isSwapEnabled_def)
  qed
next
  case Complete
  have "swapEnabled (complete pg') = swapEnabled pg'"
    by (simp add: complete_def dispatch_def)
  with Complete assms(3) show ?thesis
    by (simp add: isSwapEnabled_def)
next
  case (Move n)
  with assms(3) have "map_sum id snd (playground_move pg' n) = Inr q" by simp
  then obtain b where "playground_move pg' n = Inr (b, q)" by (rule map_sum_snd_InrE)
  then have "sameSupply pg' q" by (rule playground_move_frame)
  then show ?thesis by (simp add: sameSupply_def isSwapEnabled_def)
next
  case (Drop n)
  with assms(3) have "map_sum id snd (playground_drop pg' n) = Inr q" by simp
  then obtain b where "playground_drop pg' n = Inr (b, q)" by (rule map_sum_snd_InrE)
  then have "sameSupply pg' q" by (rule playground_drop_frame)
  then show ?thesis by (simp add: sameSupply_def isSwapEnabled_def)
next
  case RotateCW
  with assms(3) have "map_sum id snd (playground_rotateCW pg') = Inr q" by simp
  then obtain b where "playground_rotateCW pg' = Inr (b, q)" by (rule map_sum_snd_InrE)
  then have "sameSupply pg' q" by (rule playground_turn_frame(1))
  then show ?thesis by (simp add: sameSupply_def isSwapEnabled_def)
next
  case RotateCCW
  with assms(3) have "map_sum id snd (playground_rotateCCW pg') = Inr q" by simp
  then obtain b where "playground_rotateCCW pg' = Inr (b, q)" by (rule map_sum_snd_InrE)
  then have "sameSupply pg' q" by (rule playground_turn_frame(2))
  then show ?thesis by (simp add: sameSupply_def isSwapEnabled_def)
next
  case HalfTurn
  with assms(3) have "map_sum id snd (playground_halfTurn pg') = Inr q" by simp
  then obtain b where "playground_halfTurn pg' = Inr (b, q)" by (rule map_sum_snd_InrE)
  then have "sameSupply pg' q" by (rule playground_turn_frame(3))
  then show ?thesis by (simp add: sameSupply_def isSwapEnabled_def)
next
  case HardDrop
  with assms(1) show ?thesis by simp
next
  case SwapTile
  with assms(2) show ?thesis by simp
qed

lemma hardDrop_enables_swap:
  assumes "isInGame pg" and "hardDrop gen pg = Inr (b, q)"
  shows "isSwapEnabled q"
proof -
  from hardDrop_effect [OF assms(2,1)] obtain pg3 where
    "swapEnabled pg3" "spawnNextTile gen pg3 = Inr q"
    by blast
  with spawnNextTile_frame(2) [of gen pg3 q] show ?thesis
    by (simp add: isSwapEnabled_def)
qed


lemma swapTile_accepts:
  assumes "swapTile gen pg = Inr (True, pg')"
  shows "isInGame pg" "isSwapEnabled pg"
proof -
  have g: "isInGame pg \<and> swapEnabled pg"
  proof (rule ccontr)
    assume "\<not> (isInGame pg \<and> swapEnabled pg)"
    then have "swapTile gen pg = Inr (False, pg)"
      by (auto simp add: swapTile_def)
    with assms show False by simp
  qed
  from g show "isInGame pg" by (rule conjunct1)
  from g show "isSwapEnabled pg" unfolding isSwapEnabled_def by (rule conjunct2)
qed

lemma swapTile_occupied:
  assumes "swapTile gen pg = Inr (True, pg')" and "swap pg = Some held"
  shows "swap pg' = tileTyp (pgCurrent pg) \<and> tileTyp (pgCurrent pg') = Some held
    \<and> \<not> isSwapEnabled pg'"
proof (rule swapTile_effect [OF assms(1)])
  fix t pg1
  assume t: "tileTyp (pgCurrent pg) = Some t"
    and s: "swap pg1 = Some t" and e: "swapEnabled pg1 = (swap pg = None)"
    and c: "case swap pg of None \<Rightarrow> spawnNextTile gen pg1 = Inr pg'
       | Some held \<Rightarrow> spawnTile pg1 held = Inr pg'"
  from c assms(2) have sp: "spawnTile pg1 held = Inr pg'" by simp
  have a: "swap pg' = Some t"
    using spawnTile_frame(5) [OF sp] s by (rule trans)
  have b: "swapEnabled pg' = (swap pg = None)"
    using spawnTile_frame(6) [OF sp] e by (rule trans)
  have d: "tileTyp (pgCurrent pg') = Some held"
    by (rule spawnTile_frame(9) [OF sp])
  from b assms(2) have "\<not> swapEnabled pg'" by simp
  with a t d show ?thesis
    by (simp add: isSwapEnabled_def)
qed

lemma swapTile_empty:
  assumes "swapTile gen pg = Inr (True, pg')" and "swap pg = None"
  shows "swap pg' = tileTyp (pgCurrent pg) \<and> isSwapEnabled pg'
    \<and> (case preview pg ! previewCursor pg of
          None \<Rightarrow> pgState pg' = exhausted
        | Some t \<Rightarrow> tileTyp (pgCurrent pg') = Some t)"
proof (rule swapTile_effect [OF assms(1)])
  fix t pg1
  assume t: "tileTyp (pgCurrent pg) = Some t"
    and pv: "preview pg1 = preview pg" and pc: "previewCursor pg1 = previewCursor pg"
    and s: "swap pg1 = Some t" and e: "swapEnabled pg1 = (swap pg = None)"
    and c: "case swap pg of None \<Rightarrow> spawnNextTile gen pg1 = Inr pg'
       | Some held \<Rightarrow> spawnTile pg1 held = Inr pg'"
  from c assms(2) have sp: "spawnNextTile gen pg1 = Inr pg'" by simp
  have a: "swap pg' = Some t"
    using spawnNextTile_frame(1) [OF sp] s by (rule trans)
  have b: "swapEnabled pg' = (swap pg = None)"
    using spawnNextTile_frame(2) [OF sp] e by (rule trans)
  have d: "case preview pg1 ! previewCursor pg1 of
      None \<Rightarrow> pgState pg' = exhausted
    | Some t \<Rightarrow> tileTyp (pgCurrent pg') = Some t"
    by (rule spawnNextTile_head [OF sp])
  from b assms(2) have "swapEnabled pg'" by simp
  with a t d show ?thesis
    unfolding pv pc by (simp add: isSwapEnabled_def)
qed

lemma run_keeps_swap_disabled:
  "\<not> isSwapEnabled pg \<Longrightarrow> HardDrop \<notin> set cs \<Longrightarrow> run gen pg cs = Inr q
     \<Longrightarrow> \<not> isSwapEnabled q"
proof (induction cs arbitrary: pg)
  case Nil
  then show ?case by simp
next
  case (Cons c cs)
  from Cons.prems(3) obtain pg1 where s: "step gen pg c = Inr pg1" and r: "run gen pg1 cs = Inr q"
    by (cases "step gen pg c") simp_all
  from Cons.prems(2) have h: "c \<noteq> HardDrop" "HardDrop \<notin> set cs" by auto
  have "\<not> isSwapEnabled pg1"
  proof (cases "c = SwapTile")
    case True
    from Cons.prems(1) have "swapTile gen pg = Inr (False, pg)"
      by (simp add: swapTile_def isSwapEnabled_def)
    with s True have "pg1 = pg" by simp
    with Cons.prems(1) show ?thesis by simp
  next
    case False
    from step_keeps_swapEnabled [OF h(1) False s] Cons.prems(1) show ?thesis by simp
  qed
  from Cons.IH [OF this h(2) r] show ?case .
qed

section \<open>Validity under move, drop and rotate\<close>

text \<open>
  C1. The claim is that a path finder that is valid against the field stays valid
  under every successful \<open>move\<close>, \<open>drop\<close> and \<open>rotate\<close>. The code does not keep
  it for a tile with a cell in column 0 or row 0 of its frame. The constructor
  takes the value 0 of \<open>vmin.x\<close> and \<open>vmin.y\<close> for "not set yet", so the bounding
  box of \<open>cornerBitmap\<close> is recorded as \<open>min = (1, 1)\<close> although two cells lie in
  column 0 and one in row 0. With that box \<open>move(-10)\<close> takes the spawned tile to
  \<open>x = -1\<close>, where the shifted mask has lost the cell of row 0, and \<open>drop(20)\<close>
  takes it to \<open>y = 0\<close>; the path finder there is valid: box inside the field, no
  intersection of its window with the mask. \<open>move(1)\<close> then succeeds, on the mask
  shifted back without the lost cell, and returns the path finder at \<open>(0, 0)\<close>,
  which is not valid: the mask of the tile at \<open>x = 0\<close> intersects the window of the
  field at row 0, in the block at \<open>(0, 0)\<close>.
\<close>

theorem move_returns_invalid_position:
  "mkTile (replicate 4 cornerBitmap) zeroTable = Inr cornerTile
   \<and> field_grow newField [1, 0, 0, 0, 0, 0, 0, 0, 0, 0] = oneBlockField
   \<and> field_spawn oneBlockField (typePathFinder cornerTile) = Inr (True, cornerSpawned)
   \<and> field_move oneBlockField cornerSpawned (- 10) = Inr (True, cornerLeft)
   \<and> field_drop oneBlockField cornerLeft 20 = Inr (True, cornerRest)
   \<and> assertLegit oneBlockField cornerRest
   \<and> current cornerRest = windowAt oneBlockField (ty (state cornerRest))
   \<and> isValid cornerTile cornerRest
   \<and> field_move oneBlockField cornerRest 1 = Inr (True, cornerMoved)
   \<and> current cornerMoved = windowAt oneBlockField (ty (state cornerMoved))
   \<and> \<not> isValid cornerTile cornerMoved
   \<and> collide (current cornerMoved)
        (tileMove (compactTile cornerTile ! dir (state cornerMoved)) (tx (state cornerMoved)))"
proof -
  have a: "mkTile (replicate 4 cornerBitmap) zeroTable = Inr cornerTile"
    by code_simp
  have b: "field_grow newField [1, 0, 0, 0, 0, 0, 0, 0, 0, 0] = oneBlockField"
    by code_simp
  have c: "field_spawn oneBlockField (typePathFinder cornerTile) = Inr (True, cornerSpawned)"
    by code_simp
  have d: "field_move oneBlockField cornerSpawned (- 10) = Inr (True, cornerLeft)"
    by code_simp
  have e: "field_drop oneBlockField cornerLeft 20 = Inr (True, cornerRest)"
    by code_simp
  have f: "assertLegit oneBlockField cornerRest"
    "current cornerRest = windowAt oneBlockField (ty (state cornerRest))"
    "isValid cornerTile cornerRest"
    by code_simp+
  have g: "field_move oneBlockField cornerRest 1 = Inr (True, cornerMoved)"
    by code_simp
  have h: "current cornerMoved = windowAt oneBlockField (ty (state cornerMoved))"
    "\<not> isValid cornerTile cornerMoved"
    "collide (current cornerMoved)
       (tileMove (compactTile cornerTile ! dir (state cornerMoved)) (tx (state cornerMoved)))"
    by code_simp+
  from a b c d e f g h show ?thesis
    by (intro conjI)
qed

section \<open>The precondition and the effect of lock\<close>

text \<open>
  C2. Whenever \<open>lock\<close> returns (\<open>b\<close> its boolean, \<open>c\<close> the value left in the output
  parameter, \<open>f'\<close> the field after the call): it returns true if and only if the
  position of the path finder is valid and a drop by one row fails. When it
  returns false the field is unchanged, rows, colors and version, and the output
  parameter is 0. When it returns true the version has advanced by exactly 1 and
  the output parameter is the number of rows removed: the field has as many rows
  as were needed to hold the bounding box of the tile, less \<open>c\<close>, and the two row
  vectors have lost the same number of rows. The hypothesis on \<open>ty\<close> is the range
  of its type \<open>int8_t\<close>.
\<close>

theorem lock_precondition_and_effect:
  assumes "field_lock f p = Inr (b, c, f')" and "tileTyp p = Some t" and "ty (state p) \<le> 127"
  shows "(b \<longleftrightarrow> isValid t p \<and> (\<exists>r. field_drop f p 1 = Inr (False, r)))
    \<and> (\<not> b \<longrightarrow> f' = f \<and> c = 0)
    \<and> (b \<longrightarrow> fversion f' = fversion f + 1
          \<and> length (fieldRows f') + c
              = max (length (fieldRows f))
                  (nat (ty (state p) + coordY (tmax t ! dir (state p))) + 1)
          \<and> length (compactFields f') + length (fieldRows f)
              = length (fieldRows f') + length (compactFields f))"
proof (cases "isValid t p")
  case False
  with assms(1,2) show ?thesis
    by (simp add: field_lock_def split: if_splits)
next
  case True
  from assms(1,2) True obtain dropped r where d: "field_drop f p 1 = Inr (dropped, r)"
    by (cases "field_drop f p 1") (auto simp add: field_lock_def split: if_splits)
  show ?thesis
  proof (cases dropped)
    case True
    with assms(1,2) \<open>isValid t p\<close> d show ?thesis
      by (simp add: field_lock_def split: if_splits)
  next
    case False
    with assms(1,2) \<open>isValid t p\<close> d have l: "lockTile f t (state p) = Inr (c, f')" and b: b
      by (auto simp add: field_lock_def split: if_splits sum.splits)
    from \<open>isValid t p\<close> have "0 \<le> ty (state p) + coordY (tmax t ! dir (state p))"
      by (simp add: isValid_iff)
    from lockTile_length [OF l this assms(3)] b False d \<open>isValid t p\<close> show ?thesis
      by simp
  qed
qed

theorem lock_precondition_and_effect_witness:
  "field_lock exampleField kickedT = Inr (True, 1, lockedField)
   \<and> tileTyp kickedT = Some tetrominoT \<and> ty (state kickedT) \<le> 127
   \<and> isValid tetrominoT kickedT
   \<and> field_drop exampleField kickedT 1 = Inr (False, nullPathFinder)
   \<and> fversion lockedField = fversion exampleField + 1
   \<and> length (fieldRows lockedField) + 1 = max (length (fieldRows exampleField)) 3
   \<and> field_lock exampleField spawnedT = Inr (False, 0, exampleField)
   \<and> field_drop exampleField spawnedT 1 = Inr (True, pathFinderAt tetrominoT 0 2 16 2 0 False)"
proof -
  have l: "field_lock exampleField kickedT = Inr (True, 1, lockedField)"
    by code_simp
  have h: "tileTyp kickedT = Some tetrominoT" "ty (state kickedT) \<le> 127"
    by code_simp+
  have d: "field_drop exampleField kickedT 1 = Inr (False, nullPathFinder)"
    by code_simp
  have m: "nat (ty (state kickedT) + coordY (tmax tetrominoT ! dir (state kickedT))) + 1 = 3"
    by code_simp
  have s: "field_lock exampleField spawnedT = Inr (False, 0, exampleField)"
    "field_drop exampleField spawnedT 1 = Inr (True, pathFinderAt tetrominoT 0 2 16 2 0 False)"
    by code_simp+
  from lock_precondition_and_effect [OF l h] l h d m s show ?thesis
    by simp
qed

section \<open>The hold slot\<close>

text \<open>
  C3, as stated, fails when the hold slot is empty. A playground built over the
  single tile \<open>tetrominoT\<close> and started is in game with swap enabled and an empty
  hold slot; \<open>swapTile\<close> succeeds on it, and swap is still enabled afterwards: the
  assignment is \<open>swapEnabled = previous == nullptr\<close>.
\<close>

theorem swap_with_empty_hold_stays_enabled:
  "newPlayground (generate noShuffle) (newPermutator noShuffle [Some tetrominoT] ()) 2
     = Inr readyGame
   \<and> run (generate noShuffle) readyGame [Start] = Inr startedGame
   \<and> isInGame startedGame \<and> isSwapEnabled startedGame \<and> swap startedGame = None
   \<and> swapTile (generate noShuffle) startedGame = Inr (True, swappedGame)
   \<and> isSwapEnabled swappedGame"
proof -
  have a: "newPlayground (generate noShuffle) (newPermutator noShuffle [Some tetrominoT] ()) 2
     = Inr readyGame"
    by code_simp
  have b: "run (generate noShuffle) readyGame [Start] = Inr startedGame"
    by code_simp
  have c: "isInGame startedGame" "isSwapEnabled startedGame" "swap startedGame = None"
    by code_simp+
  have d: "swapTile (generate noShuffle) startedGame = Inr (True, swappedGame)"
    by code_simp
  have e: "isSwapEnabled swappedGame"
    by code_simp
  from a b c d e show ?thesis
    by (intro conjI)
qed

text \<open>
  C3, amended. After every successful \<open>swapTile\<close> the playground was in game with
  swap enabled, and the tile that was current is in the hold slot. If the hold
  slot was occupied, the tile that was held is the current one again and swap is
  disabled; it stays disabled under every sequence of commands without a
  \<open>hardDrop\<close>. If the hold slot was empty, swap is still enabled, and the tile at
  the preview cursor is the current one (or the state is \<open>exhausted\<close> if that
  preview entry is null). In both cases a \<open>hardDrop\<close> in game, which locks the
  tile, leaves swap enabled.
\<close>

theorem swap_effect:
  assumes "swapTile gen pg = Inr (True, pg')"
  shows "isInGame pg \<and> isSwapEnabled pg
    \<and> swap pg' = tileTyp (pgCurrent pg)
    \<and> (case swap pg of
          Some held \<Rightarrow>
            tileTyp (pgCurrent pg') = Some held \<and> \<not> isSwapEnabled pg'
            \<and> (\<forall>cs q. HardDrop \<notin> set cs \<longrightarrow> run gen pg' cs = Inr q \<longrightarrow> \<not> isSwapEnabled q)
        | None \<Rightarrow>
            isSwapEnabled pg'
            \<and> (case preview pg ! previewCursor pg of
                  None \<Rightarrow> pgState pg' = exhausted
                | Some t \<Rightarrow> tileTyp (pgCurrent pg') = Some t))
    \<and> (\<forall>b q. isInGame pg' \<longrightarrow> hardDrop gen pg' = Inr (b, q) \<longrightarrow> isSwapEnabled q)"
proof -
  note g = swapTile_accepts [OF assms]
  have h: "\<forall>b q. isInGame pg' \<longrightarrow> hardDrop gen pg' = Inr (b, q) \<longrightarrow> isSwapEnabled q"
    by (intro allI impI) (rule hardDrop_enables_swap)
  show ?thesis
  proof (cases "swap pg")
    case None
    from swapTile_empty [OF assms None] have e: "swap pg' = tileTyp (pgCurrent pg)"
      "isSwapEnabled pg'"
      "case preview pg ! previewCursor pg of
          None \<Rightarrow> pgState pg' = exhausted
        | Some t \<Rightarrow> tileTyp (pgCurrent pg') = Some t"
      by blast+
    have "case swap pg of
          Some held \<Rightarrow>
            tileTyp (pgCurrent pg') = Some held \<and> \<not> isSwapEnabled pg'
            \<and> (\<forall>cs q. HardDrop \<notin> set cs \<longrightarrow> run gen pg' cs = Inr q \<longrightarrow> \<not> isSwapEnabled q)
        | None \<Rightarrow>
            isSwapEnabled pg'
            \<and> (case preview pg ! previewCursor pg of
                  None \<Rightarrow> pgState pg' = exhausted
                | Some t \<Rightarrow> tileTyp (pgCurrent pg') = Some t)"
      unfolding None option.case using e(2,3) by (rule conjI)
    with g e(1) h show ?thesis by (intro conjI)
  next
    case (Some held)
    from swapTile_occupied [OF assms Some] have e: "swap pg' = tileTyp (pgCurrent pg)"
      "tileTyp (pgCurrent pg') = Some held" "\<not> isSwapEnabled pg'"
      by blast+
    have k: "\<forall>cs q. HardDrop \<notin> set cs \<longrightarrow> run gen pg' cs = Inr q \<longrightarrow> \<not> isSwapEnabled q"
      using e(3) by (intro allI impI) (rule run_keeps_swap_disabled)
    have "case swap pg of
          Some held \<Rightarrow>
            tileTyp (pgCurrent pg') = Some held \<and> \<not> isSwapEnabled pg'
            \<and> (\<forall>cs q. HardDrop \<notin> set cs \<longrightarrow> run gen pg' cs = Inr q \<longrightarrow> \<not> isSwapEnabled q)
        | None \<Rightarrow>
            isSwapEnabled pg'
            \<and> (case preview pg ! previewCursor pg of
                  None \<Rightarrow> pgState pg' = exhausted
                | Some t \<Rightarrow> tileTyp (pgCurrent pg') = Some t)"
      unfolding Some option.case using e(2,3) k by (intro conjI)
    with g e(1) h show ?thesis by (intro conjI)
  qed
qed

theorem swap_effect_witness:
  "swapTile (generate noShuffle) swappedGame = Inr (True, swappedTwice)
   \<and> swap swappedGame = Some tetrominoT
   \<and> isInGame swappedGame \<and> isSwapEnabled swappedGame
   \<and> swap swappedTwice = tileTyp (pgCurrent swappedGame)
   \<and> tileTyp (pgCurrent swappedTwice) = Some tetrominoT
   \<and> \<not> isSwapEnabled swappedTwice
   \<and> map_sum id isSwapEnabled
         (run (generate noShuffle) swappedTwice [Move 1, SwapTile, Drop 3]) = Inr False
   \<and> isInGame swappedTwice
   \<and> map_sum id (isSwapEnabled \<circ> snd) (hardDrop (generate noShuffle) swappedTwice) = Inr True
   \<and> swapTile (generate noShuffle) startedGame = Inr (True, swappedGame)
   \<and> swap startedGame = None
   \<and> preview startedGame ! previewCursor startedGame = Some tetrominoT
   \<and> tileTyp (pgCurrent swappedGame) = Some tetrominoT"
proof -
  have s: "swapTile (generate noShuffle) swappedGame = Inr (True, swappedTwice)"
    by code_simp
  have h: "swap swappedGame = Some tetrominoT"
    by code_simp
  have r: "map_sum id isSwapEnabled
         (run (generate noShuffle) swappedTwice [Move 1, SwapTile, Drop 3]) = Inr False"
    by code_simp
  have g: "isInGame swappedTwice"
    by code_simp
  have d: "map_sum id (isSwapEnabled \<circ> snd) (hardDrop (generate noShuffle) swappedTwice) = Inr True"
    by code_simp
  have s0: "swapTile (generate noShuffle) startedGame = Inr (True, swappedGame)"
    by code_simp
  have h0: "swap startedGame = None"
    "preview startedGame ! previewCursor startedGame = Some tetrominoT"
    by code_simp+
  from swap_effect [OF s] h have e: "isInGame swappedGame" "isSwapEnabled swappedGame"
    "swap swappedTwice = tileTyp (pgCurrent swappedGame)"
    "tileTyp (pgCurrent swappedTwice) = Some tetrominoT" "\<not> isSwapEnabled swappedTwice"
    by simp_all
  from swap_effect [OF s0] h0 have e0: "tileTyp (pgCurrent swappedGame) = Some tetrominoT"
    by simp
  from s h e r g d s0 h0 e0 show ?thesis
    by (intro conjI)
qed

section \<open>The output path finder of a failed operation\<close>

text \<open>
  C4, as stated, fails for \<open>spawn\<close>: on the field \<open>blockedField\<close> the spawn of the T
  tetromino returns false and leaves the path finder with its tile, its spawn
  position and the window of the field, not in the null state.
\<close>

theorem failed_spawn_keeps_path_finder:
  "field_spawn blockedField (typePathFinder tetrominoT)
     = Inr (False, pathFinderAt tetrominoT 0 2 17 0 16777216 False)
   \<and> pathFinderAt tetrominoT 0 2 17 0 16777216 False \<noteq> nullPathFinder"
proof
  show "field_spawn blockedField (typePathFinder tetrominoT)
     = Inr (False, pathFinderAt tetrominoT 0 2 17 0 16777216 False)"
    by code_simp
  show "pathFinderAt tetrominoT 0 2 17 0 16777216 False \<noteq> nullPathFinder"
    by (simp add: pathFinderAt_def nullPathFinder_def)
qed

text \<open>
  C4, amended. Whenever \<open>move\<close>, \<open>drop\<close> or \<open>rotate\<close> return false, the output path
  finder is the null path finder. \<open>spawn\<close> works in place: when it returns false
  the path finder keeps its tile, state, version and flag, and its cached window
  is the window of the field at its row.
\<close>

theorem failed_operation_output:
  "(field_move f p n = Inr (False, r1) \<longrightarrow> r1 = nullPathFinder)
   \<and> (field_drop f p k = Inr (False, r2) \<longrightarrow> r2 = nullPathFinder)
   \<and> (field_rotate f p d = Inr (False, r3) \<longrightarrow> r3 = nullPathFinder)
   \<and> (field_spawn f p = Inr (False, r4) \<longrightarrow>
        r4 = p\<lparr>current := windowAt f (ty (state p))\<rparr> \<and> tileTyp r4 \<noteq> None)"
proof (intro conjI impI)
  assume "field_move f p n = Inr (False, r1)"
  then show "r1 = nullPathFinder"
    by (auto simp add: field_move_def Let_def split: if_splits option.splits)
next
  assume "field_drop f p k = Inr (False, r2)"
  then show "r2 = nullPathFinder"
    by (auto simp add: field_drop_def Let_def split: if_splits option.splits prod.splits)
next
  assume "field_rotate f p d = Inr (False, r3)"
  then show "r3 = nullPathFinder"
    by (auto simp add: field_rotate_def Let_def split: if_splits option.splits)
next
  assume a: "field_spawn f p = Inr (False, r4)"
  then obtain t where t: "tileTyp p = Some t"
    by (cases "tileTyp p") (simp_all add: field_spawn_def)
  from a t show "r4 = p\<lparr>current := windowAt f (ty (state p))\<rparr>"
    unfolding field_spawn_def spawn_window by (simp add: Let_def split: if_splits)
  with t show "tileTyp r4 \<noteq> None"
    by simp
qed

theorem failed_operation_output_witness:
  "field_move cavernField cavernT 0 = Inr (False, nullPathFinder)
   \<and> field_drop cavernField cavernT 3 = Inr (False, nullPathFinder)
   \<and> field_rotate cavernField cavernT 1 = Inr (False, nullPathFinder)
   \<and> field_spawn blockedField (typePathFinder tetrominoT)
       = Inr (False, pathFinderAt tetrominoT 0 2 17 0 16777216 False)
   \<and> pathFinderAt tetrominoT 0 2 17 0 16777216 False
       = (typePathFinder tetrominoT)
           \<lparr>current := windowAt blockedField (ty (state (typePathFinder tetrominoT)))\<rparr>
   \<and> tileTyp (pathFinderAt tetrominoT 0 2 17 0 16777216 False) \<noteq> None"
proof -
  have m: "field_move cavernField cavernT 0 = Inr (False, nullPathFinder)"
    by code_simp
  have d: "field_drop cavernField cavernT 3 = Inr (False, nullPathFinder)"
    by code_simp
  have r: "field_rotate cavernField cavernT 1 = Inr (False, nullPathFinder)"
    by code_simp
  have s: "field_spawn blockedField (typePathFinder tetrominoT)
      = Inr (False, pathFinderAt tetrominoT 0 2 17 0 16777216 False)"
    by code_simp
  from failed_operation_output [where f = cavernField and p = cavernT and n = 0 and k = 3
      and d = 1 and ?r1.0 = nullPathFinder and ?r2.0 = nullPathFinder and ?r3.0 = nullPathFinder]
    failed_operation_output [where f = blockedField and p = "typePathFinder tetrominoT"
      and ?r4.0 = "pathFinderAt tetrominoT 0 2 17 0 16777216 False"]
    m d r s show ?thesis by blast
qed

section \<open>Rotation and wall kicks\<close>

text \<open>
  C5. For a path finder that passes the version check and whose cached window is
  the window of the field at its row, \<open>rotate\<close> computes \<open>rotate_spec\<close>: the target
  orientation at the unchanged position if that is valid, with the wall-kick
  flag unset; otherwise the first kick offset of the table row, in table order up
  to the zero sentinel, whose position is valid, with the flag set; and it
  returns false exactly when neither the unkicked position nor any kick
  candidate is valid.
\<close>

theorem rotate_takes_first_valid_candidate:
  assumes "assertLegit f p" and "tileTyp p = Some t"
    and "current p = windowAt f (ty (state p))"
  shows "field_rotate f p d = Inr (rotate_spec f t p d)
    \<and> (fst (rotate_spec f t p d) = False \<longleftrightarrow>
         \<not> isValid t (plainCandidate p d)
         \<and> (\<forall>v \<in> set (kickOffsets t (dir (state p)) d). \<not> isValid t (kickCandidate f p d v)))"
proof
  show "field_rotate f p d = Inr (rotate_spec f t p d)"
    using assms by (rule field_rotate_spec)
  show "fst (rotate_spec f t p d) = False \<longleftrightarrow>
      \<not> isValid t (plainCandidate p d)
      \<and> (\<forall>v \<in> set (kickOffsets t (dir (state p)) d). \<not> isValid t (kickCandidate f p d v))"
  proof (cases "find (\<lambda>v. isValid t (kickCandidate f p d v)) (kickOffsets t (dir (state p)) d)")
    case None
    then have "\<forall>v \<in> set (kickOffsets t (dir (state p)) d). \<not> isValid t (kickCandidate f p d v)"
      by (simp add: find_None_iff)
    then show ?thesis
      by (simp add: rotate_spec_def None)
  next
    case (Some v)
    then have "v \<in> set (kickOffsets t (dir (state p)) d)" "isValid t (kickCandidate f p d v)"
      by (auto simp add: find_Some_iff)
    with Some show ?thesis
      by (auto simp add: rotate_spec_def)
  qed
qed

theorem rotate_takes_first_valid_candidate_witness:
  "assertLegit exampleField leftT \<and> tileTyp leftT = Some tetrominoT
   \<and> current leftT = windowAt exampleField (ty (state leftT))
   \<and> \<not> isValid tetrominoT (plainCandidate leftT 1)
   \<and> kickOffsets tetrominoT (dir (state leftT)) 1 = [15, 31, 224, 239]
   \<and> field_rotate exampleField leftT 1 = Inr (True, kickedT)"
proof -
  have a: "assertLegit exampleField leftT"
    by code_simp
  have b: "tileTyp leftT = Some tetrominoT"
    by code_simp
  have c: "current leftT = windowAt exampleField (ty (state leftT))"
    by code_simp
  have d: "\<not> isValid tetrominoT (plainCandidate leftT 1)"
    by code_simp
  have e: "kickOffsets tetrominoT (dir (state leftT)) 1 = [15, 31, 224, 239]"
    by code_simp
  have s: "rotate_spec exampleField tetrominoT leftT 1 = (True, kickedT)"
    by code_simp
  from rotate_takes_first_valid_candidate [OF a b c, of 1] s a b c d e
  show ?thesis by simp
qed

section \<open>One round of the bag\<close>

text \<open>
  C6. For a permutator constructed over the tiles \<open>tiles\<close>, with a shuffle that
  permutes, and every \<open>k\<close>: the first \<open>(k + 1) * N\<close> calls of \<open>generate\<close> all
  return, and the calls \<open>k * N + 1\<close> to \<open>k * N + N\<close> return the tiles of the
  working set as a multiset; if the tiles are distinct, each of them is returned
  exactly once in that window.
\<close>

theorem bag_window_is_permutation:
  assumes "isShuffle sh"
  shows "\<exists>draws g'.
      generateN (generate sh) ((k + 1) * length tiles) (newPermutator sh tiles engine)
        = Inr (draws, g')
      \<and> mset (take (length tiles) (drop (k * length tiles) draws)) = mset tiles
      \<and> (distinct tiles \<longrightarrow>
           (\<forall>t \<in> set tiles.
              count_list (take (length tiles) (drop (k * length tiles) draws)) t = 1))"
proof (cases "tiles = []")
  case True
  then show ?thesis by simp
next
  case ne0: False
  let ?g = "newPermutator sh tiles engine"
  let ?n = "length tiles"
  have g: "numTiles ?g = length (series ?g)" "pointer ?g = 0" "mset (series ?g) = mset tiles"
    by (simp_all add: newPermutator_def permutate_fields permutate_length [OF assms(1)]
        permutate_mset [OF assms(1)])
  from g(3) have n: "length (series ?g) = ?n" by (metis size_mset)
  with ne0 have ne: "series ?g \<noteq> []" by auto
  from generate_rounds [OF assms(1) g(1,2) ne, of k]
  obtain xs g1 where r: "generateN (generate sh) (k * ?n) ?g = Inr (xs, g1)"
    "length xs = k * ?n" "numTiles g1 = length (series g1)" "pointer g1 = 0"
    "mset (series g1) = mset tiles"
    by (auto simp add: n g(3))
  from r(5) have n1: "length (series g1) = ?n" by (metis size_mset)
  with ne0 r(4) have "pointer g1 < length (series g1)" by simp
  from generate_rest [OF assms(1) r(3) this refl]
  obtain g2 where g2: "generateN (generate sh) ?n g1 = Inr (series g1, g2)"
    by (auto simp add: r(4) n1)
  have run: "generateN (generate sh) ((k + 1) * ?n) ?g = Inr (xs @ series g1, g2)"
    using generateN_add [of "generate sh" "k * ?n" ?n ?g] by (simp add: r(1) g2 add.commute)
  have w: "take ?n (drop (k * ?n) (xs @ series g1)) = series g1"
    using r(2) n1 by simp
  have "count_list (series g1) t = 1" if "distinct tiles" "t \<in> set tiles" for t
  proof -
    have "count_list (series g1) t = count (mset tiles) t"
      by (simp add: r(5) flip: count_mset)
    with that show ?thesis by (simp add: distinct_count_atmost_1)
  qed
  with run w r(5) show ?thesis by simp
qed

theorem bag_window_is_permutation_witness:
  "isShuffle (noShuffle :: unit \<Rightarrow> nat list \<Rightarrow> nat list \<times> unit)
   \<and> generateN (generate noShuffle) 6 (newPermutator noShuffle [1, 2, 3 :: nat] ())
       = Inr ([3, 2, 1, 1, 2, 3],
              \<lparr>series = [3, 2, 1], numTiles = 3, pointer = 0, workData = ()\<rparr>)
   \<and> distinct [1, 2, 3 :: nat] \<and> (2 :: nat) \<in> set [1, 2, 3]
   \<and> mset (take 3 (drop 3 [3, 2, 1, 1, 2, 3 :: nat])) = mset [1, 2, 3]
   \<and> count_list (take 3 (drop 3 [3, 2, 1, 1, 2, 3 :: nat])) 2 = 1"
proof -
  have e: "generateN (generate noShuffle) 6 (newPermutator noShuffle [1, 2, 3 :: nat] ())
       = Inr ([3, 2, 1, 1, 2, 3],
              \<lparr>series = [3, 2, 1], numTiles = 3, pointer = 0, workData = ()\<rparr>)"
    by code_simp
  from bag_window_is_permutation [OF isShuffle_noShuffle, of 1 "[1, 2, 3 :: nat]" "()"] e
  show ?thesis
    using isShuffle_noShuffle by simp
qed

section \<open>The kick table of the tetrominoes\<close>

text \<open>
  C7. The claim is that in every table that \<open>createTetrominoRotation\<close> produces the
  kicks of \<open>i \<rightarrow> j\<close> and of \<open>j \<rightarrow> i\<close> are negations of each other, entry by entry,
  with the same number of entries. The function clears only the first entry of
  each row, writes five entries of the four forward rows and copies negated
  entries into the reverse rows without a terminator, so the table depends on
  what the array held before the call. On an array filled with \<open>0x11\<close> and the
  tetromino T, the rows \<open>0 \<rightarrow> 1\<close> and \<open>1 \<rightarrow> 0\<close> come out with twelve nonzero
  entries each; the terminator of the forward row has been overwritten with
  \<open>(-1, -1)\<close>, and from entry 5 on both rows hold \<open>(1, 1)\<close>, which is not its own
  negation.
\<close>

theorem reverse_kicks_keep_prior_contents:
  "map (createTetrominoRotation filledTable TetT 0 1) [0..<12]
     = [15, 31, 224, 239, 255, 17, 17, 17, 17, 17, 17, 17]
   \<and> map (createTetrominoRotation filledTable TetT 1 0) [0..<12]
     = [1, 241, 32, 33, 17, 17, 17, 17, 17, 17, 17, 17]
   \<and> coordX (createTetrominoRotation filledTable TetT 0 1 5) = 1
   \<and> coordX (createTetrominoRotation filledTable TetT 1 0 5) = 1
   \<and> coordY (createTetrominoRotation filledTable TetT 0 1 5) = 1
   \<and> coordY (createTetrominoRotation filledTable TetT 1 0 5) = 1"
  by code_simp

section \<open>The version check\<close>

text \<open>
  C8. A path finder whose version stamp is neither 0 nor the version of the field
  makes \<open>move\<close>, \<open>drop\<close>, \<open>rotate\<close> and \<open>lock\<close> throw the version error; a path
  finder with version stamp 0 never makes them throw it, whatever the field.
\<close>

theorem stale_version_is_fatal:
  "(version p \<noteq> 0 \<and> version p \<noteq> fversion f \<longrightarrow>
      field_move f p n = Inl MismatchedVersion
      \<and> field_drop f p k = Inl MismatchedVersion
      \<and> field_rotate f p d = Inl MismatchedVersion
      \<and> field_lock f p = Inl MismatchedVersion)
   \<and> (version p = 0 \<longrightarrow>
      field_move f p n \<noteq> Inl MismatchedVersion
      \<and> field_drop f p k \<noteq> Inl MismatchedVersion
      \<and> field_rotate f p d \<noteq> Inl MismatchedVersion
      \<and> field_lock f p \<noteq> Inl MismatchedVersion)"
proof (intro conjI impI)
  assume "version p \<noteq> 0 \<and> version p \<noteq> fversion f"
  then have l: "\<not> assertLegit f p" by (simp add: assertLegit_def)
  from l show "field_move f p n = Inl MismatchedVersion" by (simp add: field_move_def)
  from l show "field_drop f p k = Inl MismatchedVersion" by (simp add: field_drop_def)
  from l show "field_rotate f p d = Inl MismatchedVersion" by (simp add: field_rotate_def)
  from l show "field_lock f p = Inl MismatchedVersion" by (simp add: field_lock_def)
next
  assume "version p = 0"
  then have l: "assertLegit f p" by (simp add: assertLegit_def)
  from l show "field_move f p n \<noteq> Inl MismatchedVersion"
    by (simp add: field_move_def Let_def split: option.splits)
  from l show "field_drop f p k \<noteq> Inl MismatchedVersion"
    using field_drop_error by fastforce
  from l show "field_rotate f p d \<noteq> Inl MismatchedVersion"
    by (simp add: field_rotate_def Let_def split: option.splits)
  from l show "field_lock f p \<noteq> Inl MismatchedVersion"
    using field_lock_error by blast
qed

theorem stale_version_is_fatal_witness:
  "field_move exampleField (spawnedT\<lparr>version := 1\<rparr>) 1 = Inl MismatchedVersion
   \<and> field_drop exampleField (spawnedT\<lparr>version := 1\<rparr>) 20 = Inl MismatchedVersion
   \<and> field_rotate exampleField (spawnedT\<lparr>version := 1\<rparr>) 1 = Inl MismatchedVersion
   \<and> field_lock exampleField (spawnedT\<lparr>version := 1\<rparr>) = Inl MismatchedVersion
   \<and> field_move exampleField (spawnedT\<lparr>version := 0\<rparr>) 1 \<noteq> Inl MismatchedVersion
   \<and> field_drop exampleField (spawnedT\<lparr>version := 0\<rparr>) 20 \<noteq> Inl MismatchedVersion
   \<and> field_rotate exampleField (spawnedT\<lparr>version := 0\<rparr>) 1 \<noteq> Inl MismatchedVersion
   \<and> field_lock exampleField (spawnedT\<lparr>version := 0\<rparr>) \<noteq> Inl MismatchedVersion"
proof -
  have a: "version (spawnedT\<lparr>version := 1\<rparr>) \<noteq> 0
      \<and> version (spawnedT\<lparr>version := 1\<rparr>) \<noteq> fversion exampleField"
    by (simp add: exampleField_def)
  have b: "version (spawnedT\<lparr>version := 0\<rparr>) = 0"
    by simp
  from a b show ?thesis
    using stale_version_is_fatal [of "spawnedT\<lparr>version := 1\<rparr>" exampleField 1 20 1]
      stale_version_is_fatal [of "spawnedT\<lparr>version := 0\<rparr>" exampleField 1 20 1]
    by blast
qed

section \<open>Dense and packed row accessors below the floor\<close>

text \<open>
  C9. For a negative row index (an \<open>int\<close>, so at least \<open>- 2^31\<close>) and a field
  whose row vector has fewer than \<open>2^63\<close> entries, \<open>rowAt\<close> returns the all-zero
  row whatever \<open>solidCell\<close> is, while \<open>compactRowAt\<close> returns the solid row.
\<close>

theorem rowAt_negative_is_empty:
  assumes "y < 0" and "- (2 ^ 31) \<le> y" and "length (compactFields f) < 2 ^ 63"
  shows "rowAt f y solidCell = replicate 10 0 \<and> compactRowAt f y = solidRow"
proof -
  have "(y + 2 ^ 64) mod 2 ^ 64 = y + 2 ^ 64"
    using assms(1,2) by (intro mod_pos_pos_trivial) simp_all
  then have "y mod 2 ^ 64 = y + 2 ^ 64"
    by simp
  then have "to_size_t y \<ge> 2 ^ 63"
    using assms(2) by (simp add: to_size_t_def le_nat_iff)
  then show ?thesis
    using assms by (simp add: rowAt_def compactRowAt_def emptyFieldRow_def)
qed

theorem rowAt_negative_is_empty_witness:
  "rowAt \<lparr>compactFields = [1023], fieldRows = [replicate 10 7], fversion = 2\<rparr> (- 1) 9
     = replicate 10 0
   \<and> compactRowAt \<lparr>compactFields = [1023], fieldRows = [replicate 10 7], fversion = 2\<rparr> (- 1)
     = solidRow"
  using rowAt_negative_is_empty
    [of "- 1" "\<lparr>compactFields = [1023], fieldRows = [replicate 10 7], fversion = 2\<rparr>" 9]
  by simp

section \<open>A bag of tiles is never exhausted\<close>

text \<open>
  C10. For a permutator constructed over a working set that is not empty and
  holds no null pointer, with a shuffle that permutes: any number of calls of
  \<open>generate\<close> return, and none of them returns \<open>nullptr\<close>. The playground
  constructed on it, with any number of previews, is never in the state
  \<open>exhausted\<close>, whatever commands are run on it.
\<close>

theorem permutator_never_exhausts:
  assumes "isShuffle sh" and "tiles \<noteq> []" and "None \<notin> set tiles"
  shows "(\<forall>n. \<exists>rs g'. generateN (generate sh) n (newPermutator sh tiles engine) = Inr (rs, g')
            \<and> length rs = n \<and> None \<notin> set rs)
    \<and> (\<exists>pg0. newPlayground (generate sh) (newPermutator sh tiles engine) np = Inr pg0
          \<and> (\<forall>cmds pg. run (generate sh) pg0 cmds = Inr pg \<longrightarrow> pgState pg \<noteq> exhausted))"
proof -
  let ?G = "bagOK (set tiles) :: (tile option, 'a) tilePermutator \<Rightarrow> bool"
  have s: "supplies (generate sh) ?G"
    using assms(1,3) by (rule supplies_bag)
  have b: "?G (newPermutator sh tiles engine)"
    using assms(1,2) by (rule bagOK_new)
  have 1: "\<exists>rs g'. generateN (generate sh) n (newPermutator sh tiles engine) = Inr (rs, g')
            \<and> length rs = n \<and> None \<notin> set rs" for n
    using generateN_supplies [OF s b, of n] by blast
  from newPlayground_neverEmpty [OF s b, of np] obtain pg0 where
    p: "newPlayground (generate sh) (newPermutator sh tiles engine) np = Inr pg0"
    and n: "neverEmpty ?G pg0"
    by blast
  have "pgState pg \<noteq> exhausted" if "run (generate sh) pg0 cmds = Inr pg" for cmds pg
    using run_neverEmpty [OF s n that] by (simp add: neverEmpty_def)
  with p 1 show ?thesis by blast
qed

theorem permutator_never_exhausts_witness:
  "isShuffle (noShuffle :: unit \<Rightarrow> tile option list \<Rightarrow> tile option list \<times> unit)
   \<and> [Some tetrominoT] \<noteq> [] \<and> None \<notin> set [Some tetrominoT]
   \<and> generateN (generate noShuffle) 3 (newPermutator noShuffle [Some tetrominoT] ())
       = Inr ([Some tetrominoT, Some tetrominoT, Some tetrominoT], tBag)
   \<and> None \<notin> set [Some tetrominoT, Some tetrominoT, Some tetrominoT]
   \<and> newPlayground (generate noShuffle) (newPermutator noShuffle [Some tetrominoT] ()) 2
       = Inr readyGame
   \<and> map_sum id pgState
        (run (generate noShuffle) readyGame [Start, HardDrop, SwapTile, Move 1, HardDrop])
       = Inr inGame
   \<and> inGame \<noteq> exhausted"
proof -
  have h: "[Some tetrominoT] \<noteq> []" "None \<notin> set [Some tetrominoT]"
    by simp_all
  have g: "generateN (generate noShuffle) 3 (newPermutator noShuffle [Some tetrominoT] ())
       = Inr ([Some tetrominoT, Some tetrominoT, Some tetrominoT], tBag)"
    by code_simp
  have p: "newPlayground (generate noShuffle) (newPermutator noShuffle [Some tetrominoT] ()) 2
       = Inr readyGame"
    by code_simp
  have r: "map_sum id pgState
        (run (generate noShuffle) readyGame [Start, HardDrop, SwapTile, Move 1, HardDrop])
       = Inr inGame"
    by code_simp
  then obtain pg where q: "run (generate noShuffle) readyGame
        [Start, HardDrop, SwapTile, Move 1, HardDrop] = Inr pg" "pgState pg = inGame"
    by (cases "run (generate noShuffle) readyGame [Start, HardDrop, SwapTile, Move 1, HardDrop]")
      simp_all
  from permutator_never_exhausts [OF isShuffle_noShuffle h, of "()" 2] p q
  have "pgState pg \<noteq> exhausted" by simp
  with q(2) have e: "inGame \<noteq> exhausted" by simp
  have n: "None \<notin> set [Some tetrominoT, Some tetrominoT, Some tetrominoT]" by simp
  from isShuffle_noShuffle h g n p r e show ?thesis
    by (intro conjI)
qed

end
